theory Spec2Isabelle
  imports Complex_Main "HOL-Library.AList"
begin

section \<open>Common modelling vocabulary\<close>

text \<open>
  The scrapers are Python programs. Values read from JSON that the code only tests for
  truthiness, compares and stores (product ids) are modelled by \<open>pyval\<close>; Python's
  \<open>if v:\<close> is \<open>truthy v\<close>. An f-string is a list of fragments: literal text and
  interpolated values. Floats are rationals.
\<close>

datatype pyval = PNone | PInt int | PStr string

fun truthy :: "pyval \<Rightarrow> bool" where
  "truthy PNone = False"
| "truthy (PInt n) = (n \<noteq> 0)"
| "truthy (PStr s) = (s \<noteq> [])"

datatype frag = Txt string | Num int | Flt rat | Val pyval

type_synonym message = "frag list"

datatype log_level = INFO | WARNING | ERROR

type_synonym log_entry = "log_level \<times> message"

text \<open>
  A persisted JSON file is absent, or present with bytes that are not text in the
  encoding \<open>open(path, 'r')\<close> reads it with (\<open>Undecodable\<close>: \<open>json.load\<close> calls
  \<open>f.read()\<close>, which raises \<open>UnicodeDecodeError\<close>), or present with text that is not
  JSON (\<open>Corrupt\<close>: \<open>json.load\<close> raises \<open>JSONDecodeError\<close>), or present with
  parsed content. \<open>UnicodeDecodeError\<close> and \<open>JSONDecodeError\<close> are both subclasses of
  \<open>ValueError\<close> and neither is a subclass of the other, so a handler for one does not
  catch the other.
\<close>

datatype 'a pfile = Missing | Undecodable | Corrupt | Content 'a

datatype py_exn =
    JSONDecodeError | UnicodeDecodeError | FileNotFoundError | OSError | TypeError
  | ValueError | AttributeError | TimeoutError | ClientError message
  | OtherException message

definition path_exists :: "'a pfile \<Rightarrow> bool" where
  "path_exists f = (f \<noteq> Missing)"

fun json_load :: "'a pfile \<Rightarrow> py_exn + 'a" where
  "json_load Missing = Inl FileNotFoundError"
| "json_load Undecodable = Inl UnicodeDecodeError"
| "json_load Corrupt = Inl JSONDecodeError"
| "json_load (Content v) = Inr v"

section \<open>Job control service (ah-scraper/scraper\_api.py)\<close>

text \<open>
  \<open>scraper_jobs\<close> is a Python dict from job id to a job dict; it is modelled as an
  association list in insertion order, and \<open>scraper_jobs[job_id] = ...\<close> is
  \<open>AList.update\<close> (an existing key keeps its place, a new key goes to the end).
  Job status is a string in the source and stays one here. \<open>created_at\<close> is a
  timestamp; every job is stored by \<open>start_scraping\<close> with one, so the field is not
  optional. \<open>MAX_CONCURRENT_JOBS\<close> is read from the environment at import time and is a
  parameter.
\<close>

record scraping_request =
  rq_max_products :: "int option"
  rq_categories_limit :: "int option"
  rq_webhook_url :: "string option"
  rq_notify_on_complete :: bool
  rq_priority :: "string option"

record job =
  job_id :: string
  status :: string
  created_at :: int
  progress :: "(string \<times> pyval) list"
  config :: "scraping_request option"
  started_at :: "int option"
  completed_at :: "int option"
  error :: "string option"


record job_response =
  jr_job_id :: string
  jr_status :: string
  jr_message :: message

datatype api_error = HTTPException nat message | RequestValidationError

record api_state =
  scraper_jobs :: "(string \<times> job) list"
  background_tasks :: "(string \<times> scraping_request) list"

definition active_count :: "(string \<times> job) list \<Rightarrow> nat" where
  "active_count jobs =
     length (filter (\<lambda>j. status j \<in> set [''queued'', ''running'']) (map snd jobs))"

text \<open>
  \<open>start_scraping\<close>: \<open>new_id\<close> is the generated job id
  (\<open>ah_scrape_<8 hex digits>_<unix time>\<close>) and \<open>now\<close> the current time.
\<close>

definition start_scraping ::
  "int \<Rightarrow> string \<Rightarrow> int \<Rightarrow> scraping_request \<Rightarrow> api_state \<Rightarrow> (api_error + job_response) \<times> api_state"
where
  "start_scraping MAX_CONCURRENT_JOBS new_id now request st =
     (if int (active_count (scraper_jobs st)) \<ge> MAX_CONCURRENT_JOBS then
        (Inl (HTTPException 429
               [Txt ''Maximum concurrent jobs ('', Num MAX_CONCURRENT_JOBS,
                Txt '') reached. Please wait for a job to complete.'']), st)
      else
        let j = \<lparr>job_id = new_id, status = ''queued'', created_at = now, progress = [],
                 config = Some request, started_at = None, completed_at = None,
                 error = None\<rparr>
        in (Inr \<lparr>jr_job_id = new_id, jr_status = ''queued'',
                 jr_message = [Txt ''Scraping job '', Txt new_id,
                               Txt '' started. Monitor progress at /jobs/'', Txt new_id]\<rparr>,
            st\<lparr>scraper_jobs := AList.update new_id j (scraper_jobs st),
               background_tasks := background_tasks st @ [(new_id, request)]\<rparr>))"





section \<open>The world the scrapers run in\<close>

text \<open>
  The HTTP server is a fixed sequence of responses, \<open>net k\<close> answering the \<open>k\<close>-th
  request sent; \<open>requests_made\<close> counts the requests sent so far. A request either
  raises in the transport (timeout, connection error) or yields a status code and a body
  (\<open>None\<close>: the body is not valid JSON). \<open>sleeps\<close> records the waits (random jitter
  is left out of the record), \<open>logs\<close> the WARNING and ERROR lines (INFO lines are not
  recorded), \<open>monitor\<close> the calls to \<open>update_status\<close> and \<open>update_progress\<close>.
  A keyword argument is \<open>None\<close>, a number, a string, or some other Python object
  (\<open>KObject\<close>, which \<open>json.dump\<close> cannot serialise).
\<close>

datatype sleep = Cooldown rat | Backoff nat | Pace

datatype kwarg = KNone | KInt int | KFloat rat | KMsg message | KObject

datatype monitor_event =
    Status_update string string message
  | Progress_update string "(string \<times> kwarg) list"

datatype 'd response = Raises py_exn | Response nat "'d option"

record world =
  requests_made :: nat
  sleeps :: "sleep list"
  logs :: "log_entry list"
  monitor :: "monitor_event list"

definition log :: "log_level \<Rightarrow> message \<Rightarrow> 'a world_scheme \<Rightarrow> 'a world_scheme" where
  "log lvl m w = w\<lparr>logs := logs w @ [(lvl, m)]\<rparr>"

definition sleep_for :: "sleep \<Rightarrow> 'a world_scheme \<Rightarrow> 'a world_scheme" where
  "sleep_for d w = w\<lparr>sleeps := sleeps w @ [d]\<rparr>"


definition call_update_progress ::
  "string \<Rightarrow> (string \<times> kwarg) list \<Rightarrow> 'a world_scheme \<Rightarrow> 'a world_scheme" where
  "call_update_progress name kw w = w\<lparr>monitor := monitor w @ [Progress_update name kw]\<rparr>"

definition send :: "(nat \<Rightarrow> 'd response) \<Rightarrow> 'a world_scheme \<Rightarrow> 'd response \<times> 'a world_scheme" where
  "send net w = (net (requests_made w), w\<lparr>requests_made := Suc (requests_made w)\<rparr>)"

section \<open>AH scraper (ah-scraper/ah\_scraper.py)\<close>

text \<open>
  A raw AH product is a dict; only \<open>webshopId\<close> is read (\<open>PNone\<close> when the key is
  absent), the rest is carried along. A JSON body is one of the shapes the three
  endpoints return; \<open>Null_json\<close> is a falsy body (\<open>null\<close> or \<open>{}\<close>).
\<close>

record ah_product =
  webshopId :: pyval
  ah_fields :: string

datatype ah_json =
    Null_json
  | Auth_json pyval
  | Categories_json "(string \<times> string) list"
  | Search_json "ah_product list"

fun ah_json_truthy :: "ah_json option \<Rightarrow> bool" where
  "ah_json_truthy None = False"
| "ah_json_truthy (Some Null_json) = False"
| "ah_json_truthy (Some (Auth_json t)) = True"
| "ah_json_truthy (Some (Categories_json cs)) = (cs \<noteq> [])"
| "ah_json_truthy (Some (Search_json ps)) = True"

text \<open>
  The progress file as \<open>load_progress\<close> reads it (\<open>progress.get(key, default)\<close>), the
  completion marker, and the job configuration (the paths it holds choose which files
  the scraper uses; the files themselves are fields of the state below).
\<close>

record ah_progress =
  pr_scraped_product_ids :: "pyval list option"
  pr_scraped_categories :: "string list option"
  pr_total_scraped_items :: "int option"

record ah_completion =
  cd_total_products :: int
  cd_categories_processed :: nat
  cd_max_products_limit :: "int option"

record ah_config =
  cfg_max_products :: "int option"
  cfg_categories_limit :: "int option"

text \<open>
  The scraper object together with its files. A Python set is a list without repeats
  (\<open>set(xs)\<close> is \<open>remdups xs\<close>, \<open>s.add(x)\<close> is \<open>List.insert x s\<close>); the order
  in which Python iterates over a set is unspecified and nothing below depends on it. \<open>ah_config_loaded\<close> says whether
  \<open>load_config\<close> ran, that is whether the attributes \<open>max_products_limit\<close> and
  \<open>categories_limit\<close> exist (\<open>hasattr\<close>). \<open>shutdown_requested\<close> is set by a signal
  handler; no signal arrives during the modelled run.
\<close>

record ah_scraper = world +
  ah_access_token :: pyval
  ah_scraped_product_ids :: "pyval list"
  ah_scraped_categories :: "string list"
  ah_categories :: "(string \<times> string) list"
  ah_total_scraped_items :: int
  ah_max_retries :: nat
  ah_shutdown_requested :: bool
  ah_scraping_completed :: bool
  ah_config_loaded :: bool
  ah_max_products_limit :: "int option"
  ah_categories_limit :: "int option"
  ah_output_file :: "ah_product list pfile"
  ah_progress_file :: "ah_progress pfile"
  ah_completed_flag :: "ah_completion pfile"

definition ah_limit_reached :: "ah_scraper \<Rightarrow> bool" where
  "ah_limit_reached s =
     (ah_config_loaded s \<and>
      (case ah_max_products_limit s of
         None \<Rightarrow> False
       | Some m \<Rightarrow> m \<noteq> 0 \<and> ah_total_scraped_items s \<ge> m))"

subsection \<open>Persisted state\<close>

definition ah_load_progress :: "ah_scraper \<Rightarrow> (py_exn + unit) \<times> ah_scraper" where
  "ah_load_progress s =
     (if path_exists (ah_progress_file s) then
        (case json_load (ah_progress_file s) of
           Inr prog \<Rightarrow>
             (Inr (),
              s\<lparr>ah_scraped_product_ids :=
                   remdups (case pr_scraped_product_ids prog of None \<Rightarrow> [] | Some xs \<Rightarrow> xs),
                ah_scraped_categories :=
                   remdups (case pr_scraped_categories prog of None \<Rightarrow> [] | Some xs \<Rightarrow> xs),
                ah_total_scraped_items :=
                   (case pr_total_scraped_items prog of None \<Rightarrow> 0 | Some n \<Rightarrow> n)\<rparr>)
         | Inl e \<Rightarrow>
             if e = JSONDecodeError
             then (Inr (), log WARNING [Txt ''Progress file corrupted, starting fresh''] s)
             else (Inl e, s))
      else (Inr (), s))"


text \<open>
  \<open>write_products\<close>. \<open>ah_new_products ids products\<close> is the deduplication loop: a
  product is kept when its id is truthy and not among \<open>ids\<close>, and its id then joins
  \<open>ids\<close>.
\<close>

fun ah_new_products :: "pyval list \<Rightarrow> ah_product list \<Rightarrow> ah_product list" where
  "ah_new_products existing_ids [] = []"
| "ah_new_products existing_ids (product # rest) =
     (if truthy (webshopId product) \<and> webshopId product \<notin> set existing_ids
      then product # ah_new_products (List.insert (webshopId product) existing_ids) rest
      else ah_new_products existing_ids rest)"

definition ah_write_products :: "ah_product list \<Rightarrow> ah_scraper \<Rightarrow> (py_exn + unit) \<times> ah_scraper" where
  "ah_write_products products s =
     (if products = [] then (Inr (), s)
      else
        let loaded =
              (if path_exists (ah_output_file s) then
                 (case json_load (ah_output_file s) of
                    Inr existing_products \<Rightarrow>
                      Inr (existing_products,
                           remdups (filter truthy (map webshopId existing_products)), s)
                  | Inl e \<Rightarrow>
                      if e = JSONDecodeError \<or> e = FileNotFoundError
                      then Inr ([], [],
                                log WARNING
                                  [Txt ''Products file corrupted or missing, starting fresh''] s)
                      else Inl e)
               else Inr ([], [], s))
        in case loaded of
             Inl e \<Rightarrow> (Inl e, s)
           | Inr (existing_products, existing_ids, s1) \<Rightarrow>
               (Inr (),
                s1\<lparr>ah_output_file :=
                     Content (existing_products @ ah_new_products existing_ids products)\<rparr>))"

subsection \<open>Requests\<close>

definition ah_handle_response ::
  "nat \<Rightarrow> ah_json option \<Rightarrow> ah_scraper \<Rightarrow> (py_exn + ah_json option) \<times> ah_scraper" where
  "ah_handle_response code body s =
     (if code = 200 then
        (case body of
           Some data \<Rightarrow> (Inr (Some data), s)
         | None \<Rightarrow> (Inr None, log ERROR [Txt ''Invalid JSON response''] s))
      else if code = 429 then
        (Inl (ClientError [Txt ''Rate limited'']),
         sleep_for (Cooldown 5) (log WARNING [Txt ''Rate limited''] s))
      else if code \<in> set [401, 403] then
        (Inl (ClientError [Txt ''Authentication failed: '', Num (int code)]),
         log ERROR [Txt ''Authentication failed (status: '', Num (int code), Txt '')''] s)
      else
        (Inl (ClientError [Txt ''HTTP '', Num (int code)]),
         log ERROR [Txt ''HTTP '', Num (int code)] s))"

text \<open>
  \<open>make_request_with_retry\<close>: \<open>for attempt in range(self.max_retries)\<close>;
  \<open>ah_attempt\<close> is one pass through the \<open>try\<close> with the logging of its \<open>except\<close>
  clauses. The three
  \<open>except\<close> clauses (timeout, client error, anything else) differ in the log line only;
  each re-raises on the last attempt and otherwise goes on to the next attempt. A loop
  that runs out (only when \<open>max_retries = 0\<close>) returns \<open>None\<close>.
\<close>

definition ah_attempt ::
  "(nat \<Rightarrow> ah_json response) \<Rightarrow> nat \<Rightarrow> ah_scraper \<Rightarrow> (py_exn + ah_json option) \<times> ah_scraper"
where
  "ah_attempt net attempt s =
     (let s1 = (if attempt > 0 then sleep_for (Backoff attempt) s else s);
          (resp, s2) = send net s1;
          (r, s3) = (case resp of
                       Raises e \<Rightarrow> (Inl e, s2)
                     | Response code body \<Rightarrow> ah_handle_response code body s2)
      in case r of
           Inr data \<Rightarrow> (Inr data, s3)
         | Inl e \<Rightarrow>
             (Inl e,
              case e of
                TimeoutError \<Rightarrow>
                  log WARNING [Txt ''Timeout on attempt '', Num (int attempt + 1)] s3
              | ClientError m \<Rightarrow>
                  log WARNING [Txt ''Network error on attempt '', Num (int attempt + 1)] s3
              | _ \<Rightarrow>
                  log ERROR [Txt ''Unexpected error on attempt '', Num (int attempt + 1)] s3))"

fun ah_attempts ::
  "(nat \<Rightarrow> ah_json response) \<Rightarrow> nat list \<Rightarrow> ah_scraper \<Rightarrow> (py_exn + ah_json option) \<times> ah_scraper"
where
  "ah_attempts net [] s = (Inr None, s)"
| "ah_attempts net (attempt # rest) s =
     (case ah_attempt net attempt s of
        (Inr data, s3) \<Rightarrow> (Inr data, s3)
      | (Inl e, s4) \<Rightarrow>
          if int attempt = int (ah_max_retries s) - 1 then (Inl e, s4)
          else ah_attempts net rest s4)"

definition ah_make_request_with_retry ::
  "(nat \<Rightarrow> ah_json response) \<Rightarrow> ah_scraper \<Rightarrow> (py_exn + ah_json option) \<times> ah_scraper" where
  "ah_make_request_with_retry net s = ah_attempts net [0..<ah_max_retries s] s"




subsection \<open>Harvesting a category\<close>

text \<open>
  The \<open>for product in products\<close> loop of \<open>scrape_category_products\<close>: the state, the
  products collected for the category and the number of new products on this page.
\<close>

fun ah_collect ::
  "ah_product list \<Rightarrow> ah_scraper \<times> ah_product list \<times> nat \<Rightarrow> ah_scraper \<times> ah_product list \<times> nat"
where
  "ah_collect [] acc = acc"
| "ah_collect (product # rest) (s, category_products, new_products) =
     (if truthy (webshopId product) \<and> webshopId product \<notin> set (ah_scraped_product_ids s) then
        let s1 = s\<lparr>ah_scraped_product_ids := List.insert (webshopId product) (ah_scraped_product_ids s),
                   ah_total_scraped_items := ah_total_scraped_items s + 1\<rparr>;
            acc1 = (s1, category_products @ [product], Suc new_products)
        in if ah_limit_reached s1 then acc1 else ah_collect rest acc1
      else ah_collect rest (s, category_products, new_products))"

definition ah_page_size :: nat where
  "ah_page_size = 750"

text \<open>
  The \<open>while not self.shutdown_requested\<close> loop. It ends only when the server sends a
  short or empty page, the limit is reached or a request fails, so it takes fuel, one
  unit per page request: \<open>None\<close> means the fuel ran out before the loop ended.
\<close>

fun ah_scrape_category_products ::
  "(nat \<Rightarrow> ah_json response) \<Rightarrow> nat \<Rightarrow> nat \<Rightarrow> ah_product list \<Rightarrow> ah_scraper
   \<Rightarrow> (ah_product list \<times> ah_scraper) option"
where
  "ah_scrape_category_products net 0 page category_products s =
     (if ah_shutdown_requested s then Some (category_products, s)
      else if ah_limit_reached s then Some (category_products, s)
      else None)"
| "ah_scrape_category_products net (Suc fuel) page category_products s =
     (if ah_shutdown_requested s then Some (category_products, s)
      else if ah_limit_reached s then Some (category_products, s)
      else
        case ah_make_request_with_retry net s of
          (Inl e, s1) \<Rightarrow> Some (category_products, log ERROR [Txt ''Exception scraping page '', Num (int page)] s1)
        | (Inr data, s1) \<Rightarrow>
            if \<not> ah_json_truthy data then Some (category_products, s1)
            else
              (case data of
                 Some (Categories_json cs) \<Rightarrow>
                   Some (category_products, log ERROR [Txt ''Exception scraping page '', Num (int page)] s1)
               | Some (Search_json products) \<Rightarrow>
                   if products = [] then Some (category_products, s1)
                   else
                     let (s2, category_products1, new_products) =
                           ah_collect products (s1, category_products, 0)
                     in if length products < ah_page_size then Some (category_products1, s2)
                        else ah_scrape_category_products net fuel (Suc page) category_products1
                               (sleep_for Pace s2)
               | _ \<Rightarrow> Some (category_products, s1)))"

subsection \<open>The whole catalog\<close>



subsection \<open>Start-up and the main method\<close>

text \<open>
  \<open>__init__\<close>, from the parsed job configuration (\<open>None\<close>: no configuration file) and
  the three files the scraper will use. A configuration file that does not parse makes
  \<open>load_config\<close> raise and no scraper is constructed; that case is outside this
  function.
\<close>

definition ah_init ::
  "ah_config option \<Rightarrow> ah_product list pfile \<Rightarrow> ah_progress pfile \<Rightarrow> ah_completion pfile
   \<Rightarrow> py_exn + ah_scraper" where
  "ah_init cfg output progress_f flag =
     (let s = \<lparr>requests_made = 0, sleeps = [], logs = [], monitor = [],
                ah_access_token = PNone, ah_scraped_product_ids = [],
                ah_scraped_categories = [], ah_categories = [],
                ah_total_scraped_items = 0, ah_max_retries = 3,
                ah_shutdown_requested = False,
                ah_scraping_completed = path_exists flag,
                ah_config_loaded = (cfg \<noteq> None),
                ah_max_products_limit = (case cfg of None \<Rightarrow> None | Some c \<Rightarrow> cfg_max_products c),
                ah_categories_limit = (case cfg of None \<Rightarrow> None | Some c \<Rightarrow> cfg_categories_limit c),
                ah_output_file = output, ah_progress_file = progress_f,
                ah_completed_flag = flag\<rparr>
      in if ah_scraping_completed s then
           (if path_exists (ah_output_file s) then
              (case json_load (ah_output_file s) of
                 Inr existing_products \<Rightarrow>
                   Inr (s\<lparr>ah_total_scraped_items := int (length existing_products)\<rparr>)
               | Inl e \<Rightarrow>
                   if e = JSONDecodeError \<or> e = FileNotFoundError
                   then Inr (s\<lparr>ah_total_scraped_items := 0\<rparr>)
                   else Inl e)
            else Inr s)
         else
           (case ah_load_progress s of
              (Inl e, s1) \<Rightarrow> Inl e
            | (Inr u, s1) \<Rightarrow> Inr s1))"


section \<open>Jumbo scraper (jumbo-scraper/jumbo\_scraper.py)\<close>

text \<open>
  A raw product as the GraphQL endpoint returns it (\<open>jm_id\<close> is \<open>PNone\<close> when the key
  is absent), and the record written to the products file, which wraps it under the
  key \<open>product\<close>.
\<close>

record jm_product_data =
  jm_id :: pyval
  jm_fields :: string

record jm_entry =
  je_product :: jm_product_data
  je_scraped_from_category :: string

text \<open>
  The \<open>data\<close> member of a GraphQL answer: \<open>Empty_data\<close> is a falsy value (\<open>null\<close> or
  \<open>{}\<close>), \<open>Search_products products tiles\<close> a dict whose \<open>searchProducts\<close> holds the
  product list and the category tiles (an absent list is empty). A body records whether
  the key \<open>data\<close> is present, its value, and whether \<open>errors\<close> is truthy.
\<close>

datatype jm_data = Empty_data | Search_products "jm_product_data list" "(string \<times> string) list"

record jm_body =
  jb_has_data :: bool
  jb_data :: jm_data
  jb_errors :: bool

fun jm_data_truthy :: "jm_data option \<Rightarrow> bool" where
  "jm_data_truthy None = False"
| "jm_data_truthy (Some Empty_data) = False"
| "jm_data_truthy (Some (Search_products ps ts)) = True"

fun jm_products_of :: "jm_data option \<Rightarrow> jm_product_data list" where
  "jm_products_of (Some (Search_products ps ts)) = ps"
| "jm_products_of _ = []"

fun jm_category_tiles_of :: "jm_data option \<Rightarrow> (string \<times> string) list" where
  "jm_category_tiles_of (Some (Search_products ps ts)) = ts"
| "jm_category_tiles_of _ = []"

record jm_progress =
  jp_scraped_products :: "pyval list option"
  jp_total_scraped :: "int option"
  jp_current_offset :: "int option"
  jp_current_batch_size :: "int option"

record jm_completion =
  jc_total_products :: int
  jc_batch_size_used :: int

text \<open>
  The scraper object and its files. Session cookies (\<open>load_session\<close>,
  \<open>save_session\<close>) are not part of the model: nothing else reads them.
\<close>

record jm_scraper = world +
  jm_max_products :: "int option"
  jm_categories_limit :: "int option"
  jm_scraped_products :: "pyval list"
  jm_total_scraped :: int
  jm_current_batch_size :: int
  jm_current_offset :: int
  jm_successful_requests :: nat
  jm_failed_requests :: nat
  jm_max_retries :: nat
  jm_base_delay :: rat
  jm_shutdown_requested :: bool
  jm_scraping_completed :: bool
  jm_products_file :: "jm_entry list pfile"
  jm_progress_file :: "jm_progress pfile"
  jm_completed_flag :: "jm_completion pfile"

definition OPTIMAL_BATCH_SIZE :: int where
  "OPTIMAL_BATCH_SIZE = 100"

definition SAFE_REQUEST_INTERVAL :: rat where
  "SAFE_REQUEST_INTERVAL = 1 / 10"

subsection \<open>Persisted state\<close>

definition jm_load_existing_data :: "jm_scraper \<Rightarrow> (py_exn + unit) \<times> jm_scraper" where
  "jm_load_existing_data s =
     (if path_exists (jm_products_file s) then
        (case json_load (jm_products_file s) of
           Inr existing_products \<Rightarrow>
             (Inr (), s\<lparr>jm_total_scraped := int (length existing_products)\<rparr>)
         | Inl e \<Rightarrow>
             if e = JSONDecodeError \<or> e = FileNotFoundError
             then (Inr (), s\<lparr>jm_total_scraped := 0\<rparr>)
             else (Inl e, s))
      else (Inr (), s))"

definition jm_load_progress :: "jm_scraper \<Rightarrow> (py_exn + unit) \<times> jm_scraper" where
  "jm_load_progress s =
     (if path_exists (jm_progress_file s) then
        (case json_load (jm_progress_file s) of
           Inr prog \<Rightarrow>
             let s1 = s\<lparr>jm_scraped_products :=
                          remdups (case jp_scraped_products prog of None \<Rightarrow> [] | Some xs \<Rightarrow> xs),
                        jm_total_scraped :=
                          (case jp_total_scraped prog of None \<Rightarrow> 0 | Some n \<Rightarrow> n),
                        jm_current_offset :=
                          (case jp_current_offset prog of None \<Rightarrow> 0 | Some n \<Rightarrow> n)\<rparr>;
                 saved_batch_size =
                   (case jp_current_batch_size prog of None \<Rightarrow> OPTIMAL_BATCH_SIZE | Some n \<Rightarrow> n)
             in (Inr (),
                 if saved_batch_size \<in> set [30, 50, 100]
                 then s1\<lparr>jm_current_batch_size := saved_batch_size\<rparr> else s1)
         | Inl e \<Rightarrow>
             if e = JSONDecodeError
             then (Inr (),
                   (log WARNING [Txt ''Progress file corrupted, starting fresh''] s)
                     \<lparr>jm_current_offset := 0\<rparr>)
             else (Inl e, s))
      else (Inr (), s))"

text \<open>
  \<open>save_progress(current_offset)\<close>; the rates and timestamps it also writes are never
  read back.
\<close>

definition jm_save_progress :: "int option \<Rightarrow> jm_scraper \<Rightarrow> jm_scraper" where
  "jm_save_progress current_offset s =
     (let s1 = (case current_offset of None \<Rightarrow> s | Some off \<Rightarrow> s\<lparr>jm_current_offset := off\<rparr>)
      in s1\<lparr>jm_progress_file :=
              Content \<lparr>jp_scraped_products = Some (jm_scraped_products s1),
                       jp_total_scraped = Some (jm_total_scraped s1),
                       jp_current_offset = Some (jm_current_offset s1),
                       jp_current_batch_size = Some (jm_current_batch_size s1)\<rparr>\<rparr>)"

fun jm_new_entries :: "pyval list \<Rightarrow> jm_entry list \<Rightarrow> jm_entry list" where
  "jm_new_entries existing_ids [] = []"
| "jm_new_entries existing_ids (product # rest) =
     (let product_id = jm_id (je_product product)
      in if truthy product_id \<and> product_id \<notin> set existing_ids
         then product # jm_new_entries (List.insert product_id existing_ids) rest
         else jm_new_entries existing_ids rest)"

definition jm_save_products :: "jm_entry list \<Rightarrow> jm_scraper \<Rightarrow> (py_exn + unit) \<times> jm_scraper" where
  "jm_save_products products s =
     (if products = [] then (Inr (), s)
      else
        let loaded =
              (if path_exists (jm_products_file s) then
                 (case json_load (jm_products_file s) of
                    Inr existing_products \<Rightarrow>
                      Inr (existing_products,
                           remdups (filter truthy (map (\<lambda>p. jm_id (je_product p)) existing_products)),
                           s)
                  | Inl e \<Rightarrow>
                      if e = JSONDecodeError \<or> e = FileNotFoundError
                      then Inr ([], [],
                                log WARNING
                                  [Txt ''Products file corrupted or missing, starting fresh''] s)
                      else Inl e)
               else Inr ([], [], s))
        in case loaded of
             Inl e \<Rightarrow> (Inl e, s)
           | Inr (existing_products, existing_ids, s1) \<Rightarrow>
               (Inr (),
                s1\<lparr>jm_products_file :=
                     Content (existing_products @ jm_new_entries existing_ids products)\<rparr>))"

subsection \<open>Requests\<close>

text \<open>
  \<open>make_graphql_request\<close>: \<open>for attempt in range(self.max_retries)\<close>. The result is the
  pair (data, success); the measured duration is left out. A 429 and a transport
  exception both \<open>continue\<close> to the next attempt; any other status returns at once; a
  loop that runs out counts one failed request.
\<close>

fun jm_attempts ::
  "(nat \<Rightarrow> jm_body response) \<Rightarrow> nat list \<Rightarrow> jm_scraper \<Rightarrow> (jm_data option \<times> bool) \<times> jm_scraper"
where
  "jm_attempts net [] s = ((None, False), s\<lparr>jm_failed_requests := Suc (jm_failed_requests s)\<rparr>)"
| "jm_attempts net (attempt # rest) s =
     (let s1 = (if attempt > 0 then sleep_for (Backoff attempt) s else s);
          (resp, s2) = send net s1
      in case resp of
           Raises e \<Rightarrow>
             jm_attempts net rest
               (log WARNING [Txt ''Request error on attempt '', Num (int attempt + 1)] s2)
         | Response code body \<Rightarrow>
             if code = 200 then
               (case body of
                  Some data \<Rightarrow>
                    let success = (jb_has_data data \<and> \<not> jb_errors data);
                        s3 = (if success
                              then s2\<lparr>jm_successful_requests := Suc (jm_successful_requests s2)\<rparr>
                              else log WARNING [Txt ''GraphQL errors'']
                                     (s2\<lparr>jm_failed_requests := Suc (jm_failed_requests s2)\<rparr>))
                    in ((if jb_has_data data then Some (jb_data data) else None, success), s3)
                | None \<Rightarrow>
                    ((None, False), s2\<lparr>jm_failed_requests := Suc (jm_failed_requests s2)\<rparr>))
             else if code = 429 then
               jm_attempts net rest
                 (sleep_for (Cooldown 5)
                    ((log WARNING [Txt ''Rate limited on attempt '', Num (int attempt + 1),
                                   Txt '', increasing delay''] s2)
                       \<lparr>jm_base_delay := min (jm_base_delay s2 * (3 / 2)) 2\<rparr>))
             else
               ((None, False),
                log WARNING [Txt ''HTTP '', Num (int code), Txt '' on attempt '',
                             Num (int attempt + 1)] s2))"

definition jm_make_graphql_request ::
  "(nat \<Rightarrow> jm_body response) \<Rightarrow> jm_scraper \<Rightarrow> (jm_data option \<times> bool) \<times> jm_scraper" where
  "jm_make_graphql_request net s = jm_attempts net [0..<jm_max_retries s] s"

subsection \<open>Harvesting the category\<close>

text \<open>
  The local variables of \<open>scrape_category\<close>, and how one pass through the loop body
  ends: with \<open>continue\<close> or by falling out of the body (\<open>Continue\<close>), or with
  \<open>break\<close> (\<open>Break\<close>).
\<close>

record jm_loop =
  lp_total_products :: int
  lp_offset :: int
  lp_consecutive_empty_pages :: nat

datatype 'a step = Continue 'a | Break 'a

definition jm_max_empty_pages :: nat where
  "jm_max_empty_pages = 5"

definition jm_estimated_total_products :: int where
  "jm_estimated_total_products = 23000"

fun jm_collect ::
  "string \<Rightarrow> jm_product_data list \<Rightarrow> jm_scraper \<times> jm_entry list \<Rightarrow> jm_scraper \<times> jm_entry list"
where
  "jm_collect category_name [] acc = acc"
| "jm_collect category_name (product_data # rest) (s, new_products) =
     (if truthy (jm_id product_data) \<and> jm_id product_data \<notin> set (jm_scraped_products s) then
        jm_collect category_name rest
          (s\<lparr>jm_scraped_products := List.insert (jm_id product_data) (jm_scraped_products s)\<rparr>,
           new_products @ [\<lparr>je_product = product_data, je_scraped_from_category = category_name\<rparr>])
      else jm_collect category_name rest (s, new_products))"

definition jm_limit_reached :: "jm_scraper \<Rightarrow> bool" where
  "jm_limit_reached s =
     (case jm_max_products s of
        None \<Rightarrow> False
      | Some m \<Rightarrow> m \<noteq> 0 \<and> jm_total_scraped s \<ge> m)"

definition jm_iteration ::
  "(nat \<Rightarrow> jm_body response) \<Rightarrow> string \<Rightarrow> jm_loop \<Rightarrow> jm_scraper
   \<Rightarrow> (py_exn + jm_loop step) \<times> jm_scraper" where
  "jm_iteration net category_name loc s =
     (let ((response_data, success), s1) = jm_make_graphql_request net s
      in if \<not> success \<or> \<not> jm_data_truthy response_data then
           (Inr (Continue (loc\<lparr>lp_consecutive_empty_pages := Suc (lp_consecutive_empty_pages loc),
                                lp_offset := lp_offset loc + jm_current_batch_size s1\<rparr>)),
            log WARNING [Txt ''Failed to fetch products from '', Txt category_name,
                         Txt '' at offset '', Num (lp_offset loc)] s1)
         else
           let products = jm_products_of response_data
           in if products = [] then
                (Inr (Continue (loc\<lparr>lp_consecutive_empty_pages := Suc (lp_consecutive_empty_pages loc),
                                     lp_offset := lp_offset loc + jm_current_batch_size s1\<rparr>)),
                 s1)
              else
                let loc1 = loc\<lparr>lp_consecutive_empty_pages := 0\<rparr>;
                    (s2, new_products) = jm_collect category_name products (s1, [])
                in case (if new_products \<noteq> [] then jm_save_products new_products s2
                         else (Inr (), s2)) of
                     (Inl e, s3) \<Rightarrow> (Inl e, s3)
                   | (Inr u, s3) \<Rightarrow>
                       let loc2 = loc1\<lparr>lp_total_products :=
                                         lp_total_products loc1 + int (length new_products)\<rparr>;
                           s4 = s3\<lparr>jm_total_scraped :=
                                      jm_total_scraped s3 + int (length new_products)\<rparr>
                       in if jm_limit_reached s4 then (Inr (Break loc2), s4)
                          else
                            let progress_percent =
                                  min 100 ((of_int (jm_total_scraped s4)
                                            / of_int jm_estimated_total_products) * 100);
                                s5 = call_update_progress ''jumbo''
                                       [(''progress_percent'', KFloat progress_percent),
                                        (''products_scraped'', KInt (jm_total_scraped s4)),
                                        (''current_task'',
                                         KMsg [Txt category_name, Txt '' (offset '',
                                               Num (lp_offset loc2), Txt '')''])] s4;
                                s6 = (if lp_offset loc2 mod 500 = 0
                                      then jm_save_progress (Some (lp_offset loc2)) s5 else s5);
                                loc3 = loc2\<lparr>lp_offset :=
                                              lp_offset loc2 +
                                              (if length products > 0 then int (length products)
                                               else jm_current_batch_size s6)\<rparr>
                            in (Inr (Continue loc3), sleep_for Pace s6))"

text \<open>
  The \<open>while not self.shutdown_requested and consecutive_empty_pages < max_empty_pages\<close>
  loop. A server that keeps sending products keeps it running, so it takes fuel, one
  unit per pass; \<open>None\<close> means the fuel ran out while the loop condition still held.
\<close>

fun jm_category_loop ::
  "(nat \<Rightarrow> jm_body response) \<Rightarrow> nat \<Rightarrow> string \<Rightarrow> jm_loop \<Rightarrow> jm_scraper
   \<Rightarrow> ((py_exn + jm_loop) \<times> jm_scraper) option"
where
  "jm_category_loop net 0 category_name loc s =
     (if \<not> jm_shutdown_requested s \<and> lp_consecutive_empty_pages loc < jm_max_empty_pages
      then None else Some (Inr loc, s))"
| "jm_category_loop net (Suc fuel) category_name loc s =
     (if \<not> jm_shutdown_requested s \<and> lp_consecutive_empty_pages loc < jm_max_empty_pages then
        (case jm_iteration net category_name loc s of
           (Inl e, s1) \<Rightarrow> Some (Inl e, s1)
         | (Inr (Break loc1), s1) \<Rightarrow> Some (Inr loc1, s1)
         | (Inr (Continue loc1), s1) \<Rightarrow> jm_category_loop net fuel category_name loc1 s1)
      else Some (Inr loc, s))"

definition jm_scrape_category ::
  "(nat \<Rightarrow> jm_body response) \<Rightarrow> nat \<Rightarrow> string \<Rightarrow> jm_scraper
   \<Rightarrow> ((py_exn + int) \<times> jm_scraper) option" where
  "jm_scrape_category net fuel category_name s =
     (case jm_category_loop net fuel category_name
             \<lparr>lp_total_products = 0, lp_offset = 0, lp_consecutive_empty_pages = 0\<rparr> s of
        None \<Rightarrow> None
      | Some (Inl e, s1) \<Rightarrow> Some (Inl e, s1)
      | Some (Inr loc, s1) \<Rightarrow>
          Some (Inr (lp_total_products loc), jm_save_progress (Some (lp_offset loc)) s1))"

subsection \<open>Start-up and the main method\<close>

definition jm_init ::
  "int option \<Rightarrow> int option \<Rightarrow> jm_entry list pfile \<Rightarrow> jm_progress pfile \<Rightarrow> jm_completion pfile
   \<Rightarrow> py_exn + jm_scraper" where
  "jm_init max_products categories_limit products_f progress_f flag =
     (let s = \<lparr>requests_made = 0, sleeps = [], logs = [], monitor = [],
                jm_max_products = max_products, jm_categories_limit = categories_limit,
                jm_scraped_products = [], jm_total_scraped = 0,
                jm_current_batch_size = OPTIMAL_BATCH_SIZE, jm_current_offset = 0,
                jm_successful_requests = 0, jm_failed_requests = 0,
                jm_max_retries = 3, jm_base_delay = SAFE_REQUEST_INTERVAL,
                jm_shutdown_requested = False,
                jm_scraping_completed = path_exists flag,
                jm_products_file = products_f, jm_progress_file = progress_f,
                jm_completed_flag = flag\<rparr>
      in case (if jm_scraping_completed s then jm_load_existing_data s else jm_load_progress s) of
           (Inl e, s1) \<Rightarrow> Inl e
         | (Inr u, s1) \<Rightarrow> Inr s1)"


section \<open>Kruidvat scraper (kruidvat-scraper/kruidvat\_scraper.py)\<close>

text \<open>
  A product is identified by \<open>product.get('id') or product.get('code')\<close>. A search
  result is falsy (\<open>Kv_null\<close>), or carries the products of the page and
  \<open>pagination.totalPages\<close> (0 when absent).

  \<open>make_request_with_retry\<close> (retries, re-authentication on 401) is represented by
  its outcome: the \<open>k\<close>-th call returns \<open>fetch k\<close>, which is a parsed body, \<open>None\<close>,
  or the exception raised after the last attempt. \<open>requests_made\<close> counts these calls.
\<close>

record kv_product =
  kv_id :: pyval
  kv_code :: pyval
  kv_fields :: string

record kv_entry =
  ke_product :: kv_product

definition py_or :: "pyval \<Rightarrow> pyval \<Rightarrow> pyval" where
  "py_or a b = (if truthy a then a else b)"

definition kv_item_id :: "kv_product \<Rightarrow> pyval" where
  "kv_item_id product = py_or (kv_id product) (kv_code product)"

datatype kv_json = Kv_null | Kv_search "kv_product list" int

record kv_progress =
  kp_scraped_products :: "pyval list option"
  kp_scraped_categories :: "string list option"
  kp_total_scraped :: "int option"

text \<open>
  The scraper object and its files; the session token and its file are not part of the
  model. The content of the completion marker is never read, only its presence.
\<close>

record kv_scraper = world +
  kv_scraped_products :: "pyval list"
  kv_scraped_categories :: "string list"
  kv_total_scraped :: int
  kv_max_products_limit :: "int option"
  kv_scraping_completed :: bool
  kv_products_file :: "kv_entry list pfile"
  kv_progress_file :: "kv_progress pfile"
  kv_completed_flag :: "unit pfile"

definition kv_make_request_with_retry ::
  "(nat \<Rightarrow> py_exn + kv_json option) \<Rightarrow> kv_scraper \<Rightarrow> (py_exn + kv_json option) \<times> kv_scraper" where
  "kv_make_request_with_retry fetch s =
     (fetch (requests_made s), s\<lparr>requests_made := Suc (requests_made s)\<rparr>)"

definition kv_limit_reached :: "kv_scraper \<Rightarrow> bool" where
  "kv_limit_reached s =
     (case kv_max_products_limit s of
        None \<Rightarrow> False
      | Some m \<Rightarrow> m \<noteq> 0 \<and> kv_total_scraped s \<ge> m)"

definition kv_save_progress :: "kv_scraper \<Rightarrow> kv_scraper" where
  "kv_save_progress s =
     s\<lparr>kv_progress_file :=
         Content \<lparr>kp_scraped_products = Some (kv_scraped_products s),
                  kp_scraped_categories = Some (kv_scraped_categories s),
                  kp_total_scraped = Some (kv_total_scraped s)\<rparr>\<rparr>"

definition kv_load_progress :: "kv_scraper \<Rightarrow> (py_exn + unit) \<times> kv_scraper" where
  "kv_load_progress s =
     (if path_exists (kv_progress_file s) then
        (case json_load (kv_progress_file s) of
           Inr prog \<Rightarrow>
             (Inr (),
              s\<lparr>kv_scraped_products :=
                   remdups (case kp_scraped_products prog of None \<Rightarrow> [] | Some xs \<Rightarrow> xs),
                kv_scraped_categories :=
                   remdups (case kp_scraped_categories prog of None \<Rightarrow> [] | Some xs \<Rightarrow> xs),
                kv_total_scraped :=
                   (case kp_total_scraped prog of None \<Rightarrow> 0 | Some n \<Rightarrow> n)\<rparr>)
         | Inl e \<Rightarrow>
             if e = JSONDecodeError
             then (Inr (), log WARNING [Txt ''Progress file corrupted, starting fresh''] s)
             else (Inl e, s))
      else (Inr (), s))"

text \<open>
  \<open>__init__\<close>, from the product limit of the job configuration (\<open>None\<close> without one)
  and the files the scraper will use.
\<close>

definition kv_init ::
  "int option \<Rightarrow> kv_entry list pfile \<Rightarrow> kv_progress pfile \<Rightarrow> unit pfile \<Rightarrow> py_exn + kv_scraper"
where
  "kv_init max_products products_f progress_f flag =
     (let s = \<lparr>requests_made = 0, sleeps = [], logs = [], monitor = [],
                kv_scraped_products = [], kv_scraped_categories = [], kv_total_scraped = 0,
                kv_max_products_limit = max_products,
                kv_scraping_completed = path_exists flag,
                kv_products_file = products_f, kv_progress_file = progress_f,
                kv_completed_flag = flag\<rparr>
      in if kv_scraping_completed s then
           (if path_exists (kv_products_file s) then
              (case json_load (kv_products_file s) of
                 Inr existing_products \<Rightarrow>
                   Inr (s\<lparr>kv_total_scraped := int (length existing_products)\<rparr>)
               | Inl e \<Rightarrow>
                   if e = JSONDecodeError \<or> e = FileNotFoundError
                   then Inr (s\<lparr>kv_total_scraped := 0\<rparr>)
                   else Inl e)
            else Inr s)
         else
           (case kv_load_progress s of
              (Inl e, s1) \<Rightarrow> Inl e
            | (Inr u, s1) \<Rightarrow> Inr s1))"

text \<open>
  \<open>save_data(data, 'products_file', 'products')\<close> with a list, the only way the scraper
  calls it.
\<close>

fun kv_new_data :: "pyval list \<Rightarrow> kv_entry list \<Rightarrow> kv_entry list" where
  "kv_new_data existing_ids [] = []"
| "kv_new_data existing_ids (item # rest) =
     (let item_id = kv_item_id (ke_product item)
      in if truthy item_id \<and> item_id \<notin> set existing_ids
         then item # kv_new_data (List.insert item_id existing_ids) rest
         else kv_new_data existing_ids rest)"

definition kv_save_data :: "kv_entry list \<Rightarrow> kv_scraper \<Rightarrow> (py_exn + unit) \<times> kv_scraper" where
  "kv_save_data data s =
     (if data = [] then (Inr (), s)
      else
        let loaded =
              (if path_exists (kv_products_file s) then
                 (case json_load (kv_products_file s) of
                    Inr existing_data \<Rightarrow>
                      Inr (existing_data,
                           remdups (filter truthy
                                      (map (\<lambda>item. kv_item_id (ke_product item)) existing_data)),
                           s)
                  | Inl e \<Rightarrow>
                      if e = JSONDecodeError \<or> e = FileNotFoundError
                      then Inr ([], [],
                                log WARNING
                                  [Txt ''products file corrupted or missing, starting fresh''] s)
                      else Inl e)
               else Inr ([], [], s))
        in case loaded of
             Inl e \<Rightarrow> (Inl e, s)
           | Inr (existing_data, existing_ids, s1) \<Rightarrow>
               (Inr (),
                s1\<lparr>kv_products_file :=
                     Content (existing_data @ kv_new_data existing_ids data)\<rparr>))"

subsection \<open>Harvesting a category\<close>

record kv_loop =
  kl_page :: int
  kl_total_scraped :: int
  kl_consecutive_empty_pages :: nat

definition kv_max_empty_pages :: nat where
  "kv_max_empty_pages = 3"

text \<open>
  The \<open>for product in products\<close> loop. The flag says whether the loop left the function
  through \<open>return total_scraped\<close> (limit already reached before a product is looked at).
\<close>

fun kv_collect ::
  "kv_product list \<Rightarrow> kv_scraper \<times> kv_entry list \<times> int
   \<Rightarrow> bool \<times> kv_scraper \<times> kv_entry list \<times> int"
where
  "kv_collect [] acc = (False, acc)"
| "kv_collect (product # rest) (s, detailed_products, total_scraped) =
     (if kv_limit_reached s then (True, s, detailed_products, total_scraped)
      else
        let product_id = kv_item_id product
        in if truthy product_id \<and> product_id \<notin> set (kv_scraped_products s) then
             let s1 = s\<lparr>kv_scraped_products := List.insert product_id (kv_scraped_products s),
                        kv_total_scraped := kv_total_scraped s + 1\<rparr>;
                 acc1 = (s1, detailed_products @ [\<lparr>ke_product = product\<rparr>], total_scraped + 1)
             in if kv_limit_reached s1 then (False, acc1) else kv_collect rest acc1
           else kv_collect rest (s, detailed_products, total_scraped))"

text \<open>
  One pass through the body of \<open>while consecutive_empty_pages < max_empty_pages\<close>,
  without the \<open>except\<close> clause: \<open>Inl\<close> is an exception raised inside the \<open>try\<close>,
  with the local variables as they are at that point.
  \<open>Break\<close> also stands for the \<open>return total_scraped\<close> inside the product loop, which
  returns the same value as the statement after the loop.
\<close>

definition kv_try_body ::
  "(nat \<Rightarrow> py_exn + kv_json option) \<Rightarrow> kv_loop \<Rightarrow> kv_scraper \<Rightarrow> (py_exn \<times> kv_loop + kv_loop step) \<times> kv_scraper"
where
  "kv_try_body fetch loc s =
     (case kv_make_request_with_retry fetch s of
        (Inl e, s1) \<Rightarrow> (Inl (e, loc), s1)
      | (Inr None, s1) \<Rightarrow>
          (Inr (Continue (loc\<lparr>kl_consecutive_empty_pages := Suc (kl_consecutive_empty_pages loc),
                               kl_page := kl_page loc + 1\<rparr>)),
           log WARNING [Txt ''No response at page '', Num (kl_page loc)] s1)
      | (Inr (Some Kv_null), s1) \<Rightarrow>
          (Inr (Continue (loc\<lparr>kl_consecutive_empty_pages := Suc (kl_consecutive_empty_pages loc),
                               kl_page := kl_page loc + 1\<rparr>)),
           log WARNING [Txt ''No response at page '', Num (kl_page loc)] s1)
      | (Inr (Some (Kv_search products total_pages)), s1) \<Rightarrow>
          if products = [] then
            let loc1 = loc\<lparr>kl_consecutive_empty_pages := Suc (kl_consecutive_empty_pages loc)\<rparr>
            in if kl_page loc1 \<ge> total_pages \<and> total_pages > 0 then (Inr (Break loc1), s1)
               else (Inr (Continue (loc1\<lparr>kl_page := kl_page loc1 + 1\<rparr>)), s1)
          else
            let loc1 = loc\<lparr>kl_consecutive_empty_pages := 0\<rparr>;
                (returned, s2, detailed_products, total_scraped) =
                  kv_collect products (s1, [], kl_total_scraped loc1);
                loc2 = loc1\<lparr>kl_total_scraped := total_scraped\<rparr>
            in if returned then (Inr (Break loc2), s2)
               else
                 case (if detailed_products \<noteq> [] then kv_save_data detailed_products s2
                       else (Inr (), s2)) of
                   (Inl e, s3) \<Rightarrow> (Inl (e, loc2), s3)
                 | (Inr u, s3) \<Rightarrow>
                     let s4 = (if detailed_products \<noteq> [] then kv_save_progress s3 else s3)
                     in if detailed_products \<noteq> [] \<and> kv_limit_reached s4 then (Inr (Break loc2), s4)
                        else
                          let loc3 = loc2\<lparr>kl_page := kl_page loc2 + 1\<rparr>
                          in if total_pages > 0 \<and> kl_page loc3 \<ge> total_pages
                             then (Inr (Break loc3), s4)
                             else (Inr (Continue loc3), sleep_for Pace s4))"

text \<open>The body with its \<open>except Exception\<close> clause.\<close>

definition kv_iteration ::
  "(nat \<Rightarrow> py_exn + kv_json option) \<Rightarrow> kv_loop \<Rightarrow> kv_scraper \<Rightarrow> kv_loop step \<times> kv_scraper"
where
  "kv_iteration fetch loc s =
     (case kv_try_body fetch loc s of
        (Inr st, s1) \<Rightarrow> (st, s1)
      | (Inl (e, loc1), s1) \<Rightarrow>
          let s2 = log ERROR [Txt ''Error scraping category at page '', Num (kl_page loc1)] s1;
              loc2 = loc1\<lparr>kl_consecutive_empty_pages := Suc (kl_consecutive_empty_pages loc1)\<rparr>
          in if kl_consecutive_empty_pages loc2 \<ge> kv_max_empty_pages then (Break loc2, s2)
             else (Continue (loc2\<lparr>kl_page := kl_page loc2 + 1\<rparr>),
                   sleep_for (Cooldown (3 / 2)) s2))"

text \<open>
  The loop, with fuel (one unit per pass): a category whose pages never run empty and
  that reports no page count keeps it running.
\<close>

fun kv_category_loop ::
  "(nat \<Rightarrow> py_exn + kv_json option) \<Rightarrow> nat \<Rightarrow> kv_loop \<Rightarrow> kv_scraper
   \<Rightarrow> (kv_loop \<times> kv_scraper) option"
where
  "kv_category_loop fetch 0 loc s =
     (if kl_consecutive_empty_pages loc < kv_max_empty_pages then None else Some (loc, s))"
| "kv_category_loop fetch (Suc fuel) loc s =
     (if kl_consecutive_empty_pages loc < kv_max_empty_pages then
        (case kv_iteration fetch loc s of
           (Break loc1, s1) \<Rightarrow> Some (loc1, s1)
         | (Continue loc1, s1) \<Rightarrow> kv_category_loop fetch fuel loc1 s1)
      else Some (loc, s))"

definition kv_scrape_category_products ::
  "(nat \<Rightarrow> py_exn + kv_json option) \<Rightarrow> nat \<Rightarrow> kv_scraper \<Rightarrow> (int \<times> kv_scraper) option" where
  "kv_scrape_category_products fetch fuel s =
     (case kv_category_loop fetch fuel
             \<lparr>kl_page = 0, kl_total_scraped = 0, kl_consecutive_empty_pages = 0\<rparr> s of
        None \<Rightarrow> None
      | Some (loc, s1) \<Rightarrow> Some (kl_total_scraped loc, s1))"

section \<open>Plus scraper (plus-scraper/plus\_scraper.py): the category loop\<close>

text \<open>
  A stored product is identified by \<open>product.PLP_Str.SKU\<close>.
  \<open>get_products_ultra_fixed\<close> catches every exception and always returns a triple
  (products, has\_more, total\_pages); it is represented by that outcome, the \<open>k\<close>-th
  call returning \<open>pages k\<close>, and \<open>requests_made\<close> counts the calls.
  \<open>TEST_MODE\<close> is \<open>False\<close> in the source, so \<open>max_pages\<close> is 200.

  In this scraper \<open>load_config\<close> is the method that assigns every attribute the loop
  reads (\<open>scraped_products\<close>, \<open>total_scraped\<close>, \<open>category_progress\<close>,
  \<open>completed_categories\<close>, \<open>shutdown_requested\<close>, ...), after it has assigned
  \<open>max_products_limit\<close> from the configuration (\<open>None\<close> when the key is absent), and
  \<open>__init__\<close> calls it only when a configuration file is given and exists. So an
  object is either \<open>Unconfigured\<close> and has none of these attributes, or \<open>Configured\<close>,
  and then \<open>hasattr(self, 'max_products_limit')\<close> is true. The record \<open>pl_scraper\<close> is
  a configured object.
\<close>

record pl_entry =
  pl_sku :: pyval
  pl_fields :: string

record pl_scraper = world +
  pl_scraped_products :: "pyval list"
  pl_total_scraped :: int
  pl_max_products_limit :: "int option"
  pl_category_progress :: "(string \<times> int) list"
  pl_completed_categories :: "string list"
  pl_shutdown_requested :: bool
  pl_products_file :: "pl_entry list pfile"
  pl_progress_saves :: nat

datatype pl_object = Unconfigured | Configured pl_scraper

definition pl_get_products_ultra_fixed ::
  "(nat \<Rightarrow> pl_entry list \<times> bool \<times> int) \<Rightarrow> pl_scraper \<Rightarrow> (pl_entry list \<times> bool \<times> int) \<times> pl_scraper"
where
  "pl_get_products_ultra_fixed pages s =
     (pages (requests_made s), s\<lparr>requests_made := Suc (requests_made s)\<rparr>)"

definition pl_limit_reached :: "pl_scraper \<Rightarrow> bool" where
  "pl_limit_reached s =
     (case pl_max_products_limit s of
        None \<Rightarrow> False
      | Some m \<Rightarrow> m \<noteq> 0 \<and> pl_total_scraped s \<ge> m)"

text \<open>\<open>save_progress\<close> writes a progress file that the loop never reads; it is counted.\<close>

definition pl_save_progress :: "pl_scraper \<Rightarrow> pl_scraper" where
  "pl_save_progress s = s\<lparr>pl_progress_saves := Suc (pl_progress_saves s)\<rparr>"

fun pl_new_products :: "pyval list \<Rightarrow> pl_entry list \<Rightarrow> pl_entry list" where
  "pl_new_products existing_ids [] = []"
| "pl_new_products existing_ids (product # rest) =
     (if truthy (pl_sku product) \<and> pl_sku product \<notin> set existing_ids
      then product # pl_new_products (List.insert (pl_sku product) existing_ids) rest
      else pl_new_products existing_ids rest)"

definition pl_save_products :: "pl_entry list \<Rightarrow> pl_scraper \<Rightarrow> (py_exn + unit) \<times> pl_scraper" where
  "pl_save_products products s =
     (if products = [] then (Inr (), s)
      else
        let loaded =
              (if path_exists (pl_products_file s) then
                 (case json_load (pl_products_file s) of
                    Inr existing_products \<Rightarrow>
                      Inr (existing_products,
                           remdups (filter truthy (map pl_sku existing_products)))
                  | Inl e \<Rightarrow>
                      if e = JSONDecodeError \<or> e = FileNotFoundError
                      then Inr ([], [])
                      else Inl e)
               else Inr ([], []))
        in case loaded of
             Inl e \<Rightarrow> (Inl e, s)
           | Inr (existing_products, existing_ids) \<Rightarrow>
               (Inr (),
                s\<lparr>pl_products_file :=
                    Content (existing_products @ pl_new_products existing_ids products)\<rparr>))"

record pl_loop =
  pp_current_page :: int
  pp_total_products :: int
  pp_consecutive_empty_pages :: nat

definition pl_max_empty_pages :: nat where
  "pl_max_empty_pages = 3"

definition pl_max_pages :: int where
  "pl_max_pages = 200"

definition pl_estimated_total_products :: int where
  "pl_estimated_total_products = 17000"

fun pl_collect ::
  "pl_entry list \<Rightarrow> pl_scraper \<times> pl_entry list \<times> int \<Rightarrow> pl_scraper \<times> pl_entry list \<times> int"
where
  "pl_collect [] acc = acc"
| "pl_collect (product # rest) (s, new_products, total_products) =
     (if truthy (pl_sku product) \<and> pl_sku product \<notin> set (pl_scraped_products s) then
        let s1 = s\<lparr>pl_scraped_products := List.insert (pl_sku product) (pl_scraped_products s),
                   pl_total_scraped := pl_total_scraped s + 1\<rparr>;
            acc1 = (s1, new_products @ [product], total_products + 1)
        in if pl_limit_reached s1 then acc1 else pl_collect rest acc1
      else pl_collect rest (s, new_products, total_products))"

text \<open>
  One pass through the loop body after the limit check at its head: the \<open>try\<close> block
  (\<open>Inl\<close>: an exception, with the local variables at that point) and the \<open>except\<close>
  clause around it.
\<close>

definition pl_try_body ::
  "(nat \<Rightarrow> pl_entry list \<times> bool \<times> int) \<Rightarrow> string \<Rightarrow> string \<Rightarrow> pl_loop \<Rightarrow> pl_scraper
   \<Rightarrow> (py_exn \<times> pl_loop + pl_loop step) \<times> pl_scraper"
where
  "pl_try_body pages category_id category_name loc s =
     (let ((products, has_more, total_pages), s1) = pl_get_products_ultra_fixed pages s
      in if products = [] then
           (Inr (Continue (loc\<lparr>pp_consecutive_empty_pages := Suc (pp_consecutive_empty_pages loc),
                                pp_current_page := pp_current_page loc + 1\<rparr>)), s1)
         else
           let loc1 = loc\<lparr>pp_consecutive_empty_pages := 0\<rparr>;
               (s2, new_products, total_products) =
                 pl_collect products (s1, [], pp_total_products loc1);
               loc2 = loc1\<lparr>pp_total_products := total_products\<rparr>
           in case (if new_products \<noteq> [] then pl_save_products new_products s2
                    else (Inr (), s2)) of
                (Inl e, s3) \<Rightarrow> (Inl (e, loc2), s3)
              | (Inr u, s3) \<Rightarrow>
                  if pl_limit_reached s3 then (Inr (Break loc2), s3)
                  else
                    let s4 = s3\<lparr>pl_category_progress :=
                                  AList.update category_id (pp_current_page loc2)
                                    (pl_category_progress s3)\<rparr>;
                        progress_percent =
                          min 100 ((of_int (pl_total_scraped s4)
                                    / of_int pl_estimated_total_products) * 100);
                        s5 = call_update_progress ''plus''
                               [(''progress_percent'', KFloat progress_percent),
                                (''products_scraped'', KInt (pl_total_scraped s4)),
                                (''current_task'',
                                 KMsg [Txt ''FIXED: '', Txt category_name, Txt '' p'',
                                       Num (pp_current_page loc2)])] s4;
                        s6 = (if pp_current_page loc2 mod 2 = 0 then pl_save_progress s5 else s5)
                    in if \<not> has_more then (Inr (Break loc2), s6)
                       else (Inr (Continue (loc2\<lparr>pp_current_page := pp_current_page loc2 + 1\<rparr>)),
                             sleep_for Pace s6))"

definition pl_iteration ::
  "(nat \<Rightarrow> pl_entry list \<times> bool \<times> int) \<Rightarrow> string \<Rightarrow> string \<Rightarrow> pl_loop \<Rightarrow> pl_scraper
   \<Rightarrow> pl_loop step \<times> pl_scraper"
where
  "pl_iteration pages category_id category_name loc s =
     (if pl_limit_reached s then (Break loc, s)
      else
        case pl_try_body pages category_id category_name loc s of
          (Inr st, s1) \<Rightarrow> (st, s1)
        | (Inl (e, loc1), s1) \<Rightarrow>
            (Continue (loc1\<lparr>pp_consecutive_empty_pages := Suc (pp_consecutive_empty_pages loc1),
                            pp_current_page := pp_current_page loc1 + 1\<rparr>),
             sleep_for (Cooldown (1 / 2))
               (log ERROR [Txt ''Error processing '', Txt category_name, Txt '' page '',
                           Num (pp_current_page loc1)] s1)))"

lemma pl_try_body_next_page:
  "pl_try_body pages category_id category_name loc s = (Inr (Continue loc1), s1)
   \<Longrightarrow> pp_current_page loc1 = pp_current_page loc + 1"
  unfolding pl_try_body_def Let_def
  by (auto split: prod.splits if_splits sum.splits)

lemma pl_try_body_raise_page:
  "pl_try_body pages category_id category_name loc s = (Inl (e, loc1), s1)
   \<Longrightarrow> pp_current_page loc1 = pp_current_page loc"
  unfolding pl_try_body_def Let_def
  by (auto split: prod.splits if_splits sum.splits)

lemma pl_iteration_next_page:
  "pl_iteration pages category_id category_name loc s = (Continue loc1, s1)
   \<Longrightarrow> pp_current_page loc1 = pp_current_page loc + 1"
  unfolding pl_iteration_def
  by (auto split: prod.splits if_splits sum.splits
           dest: pl_try_body_next_page pl_try_body_raise_page)

text \<open>
  The \<open>while\<close> loop. Every pass that does not leave the loop moves to the next page and
  the page number is bounded by \<open>max_pages\<close>, so the loop terminates.
\<close>

function pl_category_loop ::
  "(nat \<Rightarrow> pl_entry list \<times> bool \<times> int) \<Rightarrow> string \<Rightarrow> string \<Rightarrow> pl_loop \<Rightarrow> pl_scraper
   \<Rightarrow> pl_loop \<times> pl_scraper"
where
  "pl_category_loop pages category_id category_name loc s =
     (if pp_consecutive_empty_pages loc < pl_max_empty_pages
         \<and> pp_current_page loc \<le> pl_max_pages \<and> \<not> pl_shutdown_requested s then
        (case pl_iteration pages category_id category_name loc s of
           (Break loc1, s1) \<Rightarrow> (loc1, s1)
         | (Continue loc1, s1) \<Rightarrow> pl_category_loop pages category_id category_name loc1 s1)
      else (loc, s))"
  by pat_completeness auto
termination
  by (relation "measure (\<lambda>(pages, cid, cname, loc, s). nat (pl_max_pages + 1 - pp_current_page loc))")
     (auto dest: pl_iteration_next_page [OF sym] pl_iteration_next_page)

text \<open>
  \<open>scrape_category_ultra_fixed\<close>. Its first read of an attribute is
  \<open>self.completed_categories\<close>, outside any \<open>try\<close>: on an unconfigured object it
  raises \<open>AttributeError\<close>.
\<close>

definition pl_scrape_category_ultra_fixed ::
  "(nat \<Rightarrow> pl_entry list \<times> bool \<times> int) \<Rightarrow> string \<Rightarrow> string \<Rightarrow> pl_object
   \<Rightarrow> (py_exn + int) \<times> pl_object"
where
  "pl_scrape_category_ultra_fixed pages category_id category_name obj =
     (case obj of
        Unconfigured \<Rightarrow> (Inl AttributeError, Unconfigured)
      | Configured s \<Rightarrow>
          if category_id \<in> set (pl_completed_categories s) then (Inr 0, Configured s)
          else
            let current_page = (case map_of (pl_category_progress s) category_id of
                                  None \<Rightarrow> 1 | Some p \<Rightarrow> p);
                (loc, s1) = pl_category_loop pages category_id category_name
                              \<lparr>pp_current_page = current_page, pp_total_products = 0,
                               pp_consecutive_empty_pages = 0\<rparr> s;
                s2 = s1\<lparr>pl_completed_categories :=
                          List.insert category_id (pl_completed_categories s1)\<rparr>
            in (Inr (pp_total_products loc), Configured (pl_save_progress s2)))"

section \<open>Progress monitor (kruidvat-scraper/progress\_monitor.py)\<close>















section \<open>Runs over the product store\<close>

text \<open>
  What can happen to a product store between the first save and the last: a save of a
  batch, a process death while the file is being rewritten, and a restart, which
  constructs a new scraper over the same files. A process death leaves the file
  truncated: text that is not JSON or, when the cut falls inside a multi-byte character
  (the files are written with \<open>ensure_ascii=False\<close>), bytes that are not text.
\<close>

datatype 'p store_event =
  Persist "'p list" | Killed_while_writing | Killed_inside_a_character | Restart

fun ah_store_event :: "ah_product store_event \<Rightarrow> ah_scraper \<Rightarrow> ah_scraper" where
  "ah_store_event (Persist products) s = snd (ah_write_products products s)"
| "ah_store_event Killed_while_writing s = s\<lparr>ah_output_file := Corrupt\<rparr>"
| "ah_store_event Killed_inside_a_character s = s\<lparr>ah_output_file := Undecodable\<rparr>"
| "ah_store_event Restart s =
     (case ah_init (if ah_config_loaded s
                    then Some \<lparr>cfg_max_products = ah_max_products_limit s,
                               cfg_categories_limit = ah_categories_limit s\<rparr>
                    else None)
             (ah_output_file s) (ah_progress_file s) (ah_completed_flag s) of
        Inr s1 \<Rightarrow> s1
      | Inl e \<Rightarrow> s)"

fun jm_store_event :: "jm_entry store_event \<Rightarrow> jm_scraper \<Rightarrow> jm_scraper" where
  "jm_store_event (Persist products) s = snd (jm_save_products products s)"
| "jm_store_event Killed_while_writing s = s\<lparr>jm_products_file := Corrupt\<rparr>"
| "jm_store_event Killed_inside_a_character s = s\<lparr>jm_products_file := Undecodable\<rparr>"
| "jm_store_event Restart s =
     (case jm_init (jm_max_products s) (jm_categories_limit s)
             (jm_products_file s) (jm_progress_file s) (jm_completed_flag s) of
        Inr s1 \<Rightarrow> s1
      | Inl e \<Rightarrow> s)"

fun kv_store_event :: "kv_entry store_event \<Rightarrow> kv_scraper \<Rightarrow> kv_scraper" where
  "kv_store_event (Persist data) s = snd (kv_save_data data s)"
| "kv_store_event Killed_while_writing s = s\<lparr>kv_products_file := Corrupt\<rparr>"
| "kv_store_event Killed_inside_a_character s = s\<lparr>kv_products_file := Undecodable\<rparr>"
| "kv_store_event Restart s =
     (case kv_init (kv_max_products_limit s)
             (kv_products_file s) (kv_progress_file s) (kv_completed_flag s) of
        Inr s1 \<Rightarrow> s1
      | Inl e \<Rightarrow> s)"

text \<open>The external ids of the records in a store file; a file that is absent or cannot
  be read holds no record.\<close>

fun stored :: "'p list pfile \<Rightarrow> 'p list" where
  "stored (Content ps) = ps"
| "stored Missing = []"
| "stored Undecodable = []"
| "stored Corrupt = []"

definition ah_store_ids :: "ah_scraper \<Rightarrow> pyval list" where
  "ah_store_ids s = map webshopId (stored (ah_output_file s))"

definition jm_store_ids :: "jm_scraper \<Rightarrow> pyval list" where
  "jm_store_ids s = map (\<lambda>p. jm_id (je_product p)) (stored (jm_products_file s))"

definition kv_store_ids :: "kv_scraper \<Rightarrow> pyval list" where
  "kv_store_ids s = map (\<lambda>item. kv_item_id (ke_product item)) (stored (kv_products_file s))"

section \<open>Example states\<close>

text \<open>The AH, Jumbo and Kruidvat scrapers as constructed, without a job configuration, on
  a machine without any file from an earlier run.\<close>

definition ah_blank :: ah_scraper where
  "ah_blank =
     \<lparr>requests_made = 0, sleeps = [], logs = [], monitor = [],
      ah_access_token = PNone, ah_scraped_product_ids = [],
      ah_scraped_categories = [], ah_categories = [],
      ah_total_scraped_items = 0, ah_max_retries = 3,
      ah_shutdown_requested = False, ah_scraping_completed = False,
      ah_config_loaded = False, ah_max_products_limit = None, ah_categories_limit = None,
      ah_output_file = Missing, ah_progress_file = Missing, ah_completed_flag = Missing\<rparr>"

definition jm_blank :: jm_scraper where
  "jm_blank =
     \<lparr>requests_made = 0, sleeps = [], logs = [], monitor = [],
      jm_max_products = None, jm_categories_limit = None,
      jm_scraped_products = [], jm_total_scraped = 0,
      jm_current_batch_size = 100, jm_current_offset = 0,
      jm_successful_requests = 0, jm_failed_requests = 0,
      jm_max_retries = 3, jm_base_delay = 1 / 10,
      jm_shutdown_requested = False, jm_scraping_completed = False,
      jm_products_file = Missing, jm_progress_file = Missing, jm_completed_flag = Missing\<rparr>"

definition kv_blank :: kv_scraper where
  "kv_blank =
     \<lparr>requests_made = 0, sleeps = [], logs = [], monitor = [],
      kv_scraped_products = [], kv_scraped_categories = [], kv_total_scraped = 0,
      kv_max_products_limit = None, kv_scraping_completed = False,
      kv_products_file = Missing, kv_progress_file = Missing, kv_completed_flag = Missing\<rparr>"

text \<open>The Plus scraper as \<open>load_config\<close> leaves it when the configuration names no
  product limit and there is no file from an earlier run.\<close>

definition pl_blank :: pl_scraper where
  "pl_blank =
     \<lparr>requests_made = 0, sleeps = [], logs = [], monitor = [],
      pl_scraped_products = [], pl_total_scraped = 0,
      pl_max_products_limit = None,
      pl_category_progress = [], pl_completed_categories = [],
      pl_shutdown_requested = False, pl_products_file = Missing, pl_progress_saves = 0\<rparr>"

definition ah_item :: "int \<Rightarrow> ah_product" where
  "ah_item n = \<lparr>webshopId = PInt n, ah_fields = ''raw''\<rparr>"

definition jm_item :: "int \<Rightarrow> jm_product_data" where
  "jm_item n = \<lparr>jm_id = PInt n, jm_fields = ''raw''\<rparr>"

definition jm_stored_item :: "int \<Rightarrow> jm_entry" where
  "jm_stored_item n = \<lparr>je_product = jm_item n, je_scraped_from_category = ''BBQ (Full Catalog)''\<rparr>"

definition kv_item :: "int \<Rightarrow> kv_product" where
  "kv_item n = \<lparr>kv_id = PNone, kv_code = PInt n, kv_fields = ''raw''\<rparr>"

definition kv_stored_item :: "int \<Rightarrow> kv_entry" where
  "kv_stored_item n = \<lparr>ke_product = kv_item n\<rparr>"

definition pl_item :: "int \<Rightarrow> pl_entry" where
  "pl_item n = \<lparr>pl_sku = PInt n, pl_fields = ''raw''\<rparr>"


text \<open>A throttling response is one with status 429.\<close>

definition throttled :: "'d response \<Rightarrow> bool" where
  "throttled r = (case r of Response code body \<Rightarrow> code = 429 | Raises e \<Rightarrow> False)"

text \<open>The number of requests, among those numbered from \<open>m\<close> up to but not including
  \<open>n\<close>, that the server answers with status 429.\<close>

definition throttled_answers :: "(nat \<Rightarrow> 'd response) \<Rightarrow> nat \<Rightarrow> nat \<Rightarrow> nat" where
  "throttled_answers net m n = length (filter (\<lambda>i. throttled (net i)) [m..<n])"

text \<open>A well-formed Jumbo answer carrying a page of products.\<close>

definition jm_page :: "jm_product_data list \<Rightarrow> jm_body response" where
  "jm_page ps =
     Response 200 (Some \<lparr>jb_has_data = True, jb_data = Search_products ps [], jb_errors = False\<rparr>)"

text \<open>
  The state in which attempt number \<open>attempt\<close> leaves the Jumbo scraper when the server
  answers it with 429. For the AH scraper a failing answer is a transport exception or a
  status other than 200.
\<close>

definition jm_after_throttle :: "nat \<Rightarrow> jm_scraper \<Rightarrow> jm_scraper" where
  "jm_after_throttle attempt s =
     (let s1 = (if attempt > 0 then sleep_for (Backoff attempt) s else s);
          s2 = s1\<lparr>requests_made := Suc (requests_made s1)\<rparr>
      in sleep_for (Cooldown 5)
           ((log WARNING [Txt ''Rate limited on attempt '', Num (int attempt + 1),
                          Txt '', increasing delay''] s2)
              \<lparr>jm_base_delay := min (jm_base_delay s2 * (3 / 2)) 2\<rparr>))"

definition ah_failing :: "ah_json response \<Rightarrow> bool" where
  "ah_failing r = (case r of Response code body \<Rightarrow> code \<noteq> 200 | Raises e \<Rightarrow> True)"

text \<open>Servers for the examples: one that throttles the first \<open>n\<close> requests and then
  serves a page, and servers that always give the same answer.\<close>

definition jm_throttle_first :: "nat \<Rightarrow> jm_product_data list \<Rightarrow> nat \<Rightarrow> jm_body response" where
  "jm_throttle_first n ps k = (if k < n then Response 429 None else jm_page ps)"

definition ah_throttle_first :: "nat \<Rightarrow> ah_product list \<Rightarrow> nat \<Rightarrow> ah_json response" where
  "ah_throttle_first n ps k = (if k < n then Response 429 None else Response 200 (Some (Search_json ps)))"

text \<open>What a Jumbo request leaves untouched.\<close>

definition jm_request_frame :: "jm_scraper \<Rightarrow> jm_scraper \<Rightarrow> bool" where
  "jm_request_frame s s' =
     (jm_current_batch_size s' = jm_current_batch_size s
      \<and> jm_shutdown_requested s' = jm_shutdown_requested s
      \<and> jm_max_retries s' = jm_max_retries s
      \<and> jm_max_products s' = jm_max_products s
      \<and> jm_total_scraped s' = jm_total_scraped s
      \<and> jm_scraped_products s' = jm_scraped_products s
      \<and> jm_products_file s' = jm_products_file s)"

text \<open>The local variables of the Jumbo loop on entry.\<close>

definition jm_loop_start :: jm_loop where
  "jm_loop_start = \<lparr>lp_total_products = 0, lp_offset = 0, lp_consecutive_empty_pages = 0\<rparr>"

text \<open>A Kruidvat search answer without products and without page count.\<close>

definition kv_empty_page :: "py_exn + kv_json option" where
  "kv_empty_page = Inr (Some (Kv_search [] 0))"

text \<open>A Kruidvat search answer with the given products and without page count.\<close>

definition kv_page :: "kv_product list \<Rightarrow> py_exn + kv_json option" where
  "kv_page ps = Inr (Some (Kv_search ps 0))"

text \<open>Servers whose answer number \<open>n\<close> (counting from 0) carries the products \<open>ps\<close>
  and whose every other answer is an empty page. The Plus one says that more pages
  follow the page with products.\<close>

definition jm_one_page_at :: "nat \<Rightarrow> jm_product_data list \<Rightarrow> nat \<Rightarrow> jm_body response" where
  "jm_one_page_at n ps k = (if k = n then jm_page ps else jm_page [])"

definition kv_one_page_at :: "nat \<Rightarrow> kv_product list \<Rightarrow> nat \<Rightarrow> py_exn + kv_json option" where
  "kv_one_page_at n ps k = (if k = n then kv_page ps else kv_empty_page)"

definition pl_one_page_at :: "nat \<Rightarrow> pl_entry list \<Rightarrow> nat \<Rightarrow> pl_entry list \<times> bool \<times> int" where
  "pl_one_page_at n ps k = (if k = n then (ps, True, 200) else ([], False, 1))"

text \<open>The local variables of the Kruidvat and Plus loops on entry (Plus: a category
  without saved progress starts at page 1).\<close>

definition kv_loop_start :: kv_loop where
  "kv_loop_start = \<lparr>kl_page = 0, kl_total_scraped = 0, kl_consecutive_empty_pages = 0\<rparr>"

definition pl_loop_start :: pl_loop where
  "pl_loop_start = \<lparr>pp_current_page = 1, pp_total_products = 0, pp_consecutive_empty_pages = 0\<rparr>"

text \<open>A server that gives the same answer to every request.\<close>

definition always :: "'r \<Rightarrow> nat \<Rightarrow> 'r" where
  "always r k = r"

text \<open>What an AH request leaves untouched.\<close>

definition ah_request_frame :: "ah_scraper \<Rightarrow> ah_scraper \<Rightarrow> bool" where
  "ah_request_frame s s' =
     (ah_total_scraped_items s' = ah_total_scraped_items s
      \<and> ah_max_products_limit s' = ah_max_products_limit s
      \<and> ah_config_loaded s' = ah_config_loaded s
      \<and> ah_max_retries s' = ah_max_retries s
      \<and> ah_shutdown_requested s' = ah_shutdown_requested s
      \<and> ah_scraped_product_ids s' = ah_scraped_product_ids s
      \<and> ah_output_file s' = ah_output_file s)"

text \<open>The product limit \<open>M\<close> is configured and the counter is within it.\<close>

definition ah_within_limit :: "int \<Rightarrow> ah_scraper \<Rightarrow> bool" where
  "ah_within_limit M s =
     (ah_config_loaded s \<and> ah_max_products_limit s = Some M \<and> ah_total_scraped_items s \<le> M)"

definition kv_within_limit :: "int \<Rightarrow> kv_scraper \<Rightarrow> bool" where
  "kv_within_limit M s = (kv_max_products_limit s = Some M \<and> kv_total_scraped s \<le> M)"

section \<open>Properties of the job control service\<close>







text \<open>
  C7. A create request arriving while the number of queued or running jobs is at or above
  the cap is answered with HTTP 429 and leaves the registry and the task queue untouched;
  a request below the cap registers the job under its id with status \<open>queued\<close>, schedules
  it and answers \<open>queued\<close>.
\<close>

theorem start_scraping_capacity:
  "(int (active_count (scraper_jobs st)) \<ge> cap \<longrightarrow>
      (\<exists>detail. fst (start_scraping cap new_id now request st) = Inl (HTTPException 429 detail))
      \<and> snd (start_scraping cap new_id now request st) = st)
   \<and> (int (active_count (scraper_jobs st)) < cap \<longrightarrow>
      (\<exists>r. fst (start_scraping cap new_id now request st) = Inr r
           \<and> jr_job_id r = new_id \<and> jr_status r = ''queued'')
      \<and> (\<exists>j. map_of (scraper_jobs (snd (start_scraping cap new_id now request st))) new_id = Some j
           \<and> status j = ''queued'' \<and> job_id j = new_id)
      \<and> background_tasks (snd (start_scraping cap new_id now request st))
          = background_tasks st @ [(new_id, request)])"
  by (simp add: start_scraping_def Let_def update_conv')

theorem start_scraping_capacity_witness:
  "fst (start_scraping 1 ''job_b'' 7
          \<lparr>rq_max_products = Some 10, rq_categories_limit = None, rq_webhook_url = None,
           rq_notify_on_complete = True, rq_priority = Some ''normal''\<rparr>
          \<lparr>scraper_jobs =
             [(''job_a'', \<lparr>job_id = ''job_a'', status = ''running'', created_at = 3,
                           progress = [], config = None, started_at = Some 4,
                           completed_at = None, error = None\<rparr>)],
           background_tasks = []\<rparr>)
     = Inl (HTTPException 429
              [Txt ''Maximum concurrent jobs ('', Num 1,
               Txt '') reached. Please wait for a job to complete.''])
   \<and> map_of (scraper_jobs (snd (start_scraping 1 ''job_b'' 7
          \<lparr>rq_max_products = Some 10, rq_categories_limit = None, rq_webhook_url = None,
           rq_notify_on_complete = True, rq_priority = Some ''normal''\<rparr>
          \<lparr>scraper_jobs = [], background_tasks = []\<rparr>))) ''job_b''
     = Some \<lparr>job_id = ''job_b'', status = ''queued'', created_at = 7, progress = [],
              config = Some \<lparr>rq_max_products = Some 10, rq_categories_limit = None,
                              rq_webhook_url = None, rq_notify_on_complete = True,
                              rq_priority = Some ''normal''\<rparr>,
              started_at = None, completed_at = None, error = None\<rparr>"
  using
    start_scraping_capacity [where cap = 1 and new_id = "''job_b''" and now = 7 and st =
      "\<lparr>scraper_jobs =
             [(''job_a'', \<lparr>job_id = ''job_a'', status = ''running'', created_at = 3,
                           progress = [], config = None, started_at = Some 4,
                           completed_at = None, error = None\<rparr>)],
           background_tasks = []\<rparr>"]
    start_scraping_capacity [where cap = 1 and new_id = "''job_b''" and now = 7 and st =
      "\<lparr>scraper_jobs = [], background_tasks = []\<rparr>"]
  by (simp add: start_scraping_def active_count_def Let_def)




section \<open>The product store holds each id once\<close>

lemma ah_new_products_fresh:
  "p \<in> set (ah_new_products ids ps) \<Longrightarrow>
     truthy (webshopId p) \<and> webshopId p \<notin> set ids \<and> p \<in> set ps"
proof (induction ps arbitrary: ids)
  case Nil
  then show ?case by simp
next
  case (Cons q ps)
  show ?case
  proof (cases "truthy (webshopId q) \<and> webshopId q \<notin> set ids")
    case True
    with Cons.prems have "p = q \<or> p \<in> set (ah_new_products (List.insert (webshopId q) ids) ps)"
      by (simp add: Let_def)
    then show ?thesis
    proof
      assume "p = q"
      with True show ?thesis by simp
    next
      assume "p \<in> set (ah_new_products (List.insert (webshopId q) ids) ps)"
      from Cons.IH [OF this] show ?thesis by simp
    qed
  next
    case False
    with Cons.prems have "p \<in> set (ah_new_products ids ps)" by (auto simp: Let_def)
    from Cons.IH [OF this] show ?thesis by simp
  qed
qed

lemma ah_new_products_distinct: "distinct (map (\<lambda>p. webshopId p) (ah_new_products ids ps))"
proof (induction ps arbitrary: ids)
  case Nil
  then show ?case by simp
next
  case (Cons q ps)
  let ?ids' = "List.insert (webshopId q) ids"
  have "webshopId q \<notin> (\<lambda>p. webshopId p) ` set (ah_new_products ?ids' ps)"
  proof
    assume "webshopId q \<in> (\<lambda>p. webshopId p) ` set (ah_new_products ?ids' ps)"
    then obtain p where p: "p \<in> set (ah_new_products ?ids' ps)"
      and eq: "webshopId q = webshopId p" by auto
    from ah_new_products_fresh [OF p] eq show False by simp
  qed
  moreover have "distinct (map (\<lambda>p. webshopId p) (ah_new_products ?ids' ps))"
    and "distinct (map (\<lambda>p. webshopId p) (ah_new_products ids ps))"
    by (rule Cons.IH)+
  ultimately show ?case
    by (simp add: Let_def del: in_set_insert not_in_set_insert)
qed

lemma jm_new_entries_fresh:
  "p \<in> set (jm_new_entries ids ps) \<Longrightarrow>
     truthy (jm_id (je_product p)) \<and> jm_id (je_product p) \<notin> set ids \<and> p \<in> set ps"
proof (induction ps arbitrary: ids)
  case Nil
  then show ?case by simp
next
  case (Cons q ps)
  show ?case
  proof (cases "truthy (jm_id (je_product q)) \<and> jm_id (je_product q) \<notin> set ids")
    case True
    with Cons.prems have "p = q \<or> p \<in> set (jm_new_entries (List.insert (jm_id (je_product q)) ids) ps)"
      by (simp add: Let_def)
    then show ?thesis
    proof
      assume "p = q"
      with True show ?thesis by simp
    next
      assume "p \<in> set (jm_new_entries (List.insert (jm_id (je_product q)) ids) ps)"
      from Cons.IH [OF this] show ?thesis by simp
    qed
  next
    case False
    with Cons.prems have "p \<in> set (jm_new_entries ids ps)" by (auto simp: Let_def)
    from Cons.IH [OF this] show ?thesis by simp
  qed
qed

lemma jm_new_entries_distinct: "distinct (map (\<lambda>p. jm_id (je_product p)) (jm_new_entries ids ps))"
proof (induction ps arbitrary: ids)
  case Nil
  then show ?case by simp
next
  case (Cons q ps)
  let ?ids' = "List.insert (jm_id (je_product q)) ids"
  have "jm_id (je_product q) \<notin> (\<lambda>p. jm_id (je_product p)) ` set (jm_new_entries ?ids' ps)"
  proof
    assume "jm_id (je_product q) \<in> (\<lambda>p. jm_id (je_product p)) ` set (jm_new_entries ?ids' ps)"
    then obtain p where p: "p \<in> set (jm_new_entries ?ids' ps)"
      and eq: "jm_id (je_product q) = jm_id (je_product p)" by auto
    from jm_new_entries_fresh [OF p] eq show False by simp
  qed
  moreover have "distinct (map (\<lambda>p. jm_id (je_product p)) (jm_new_entries ?ids' ps))"
    and "distinct (map (\<lambda>p. jm_id (je_product p)) (jm_new_entries ids ps))"
    by (rule Cons.IH)+
  ultimately show ?case
    by (simp add: Let_def del: in_set_insert not_in_set_insert)
qed

lemma kv_new_data_fresh:
  "p \<in> set (kv_new_data ids ps) \<Longrightarrow>
     truthy (kv_item_id (ke_product p)) \<and> kv_item_id (ke_product p) \<notin> set ids \<and> p \<in> set ps"
proof (induction ps arbitrary: ids)
  case Nil
  then show ?case by simp
next
  case (Cons q ps)
  show ?case
  proof (cases "truthy (kv_item_id (ke_product q)) \<and> kv_item_id (ke_product q) \<notin> set ids")
    case True
    with Cons.prems have "p = q \<or> p \<in> set (kv_new_data (List.insert (kv_item_id (ke_product q)) ids) ps)"
      by (simp add: Let_def)
    then show ?thesis
    proof
      assume "p = q"
      with True show ?thesis by simp
    next
      assume "p \<in> set (kv_new_data (List.insert (kv_item_id (ke_product q)) ids) ps)"
      from Cons.IH [OF this] show ?thesis by simp
    qed
  next
    case False
    with Cons.prems have "p \<in> set (kv_new_data ids ps)" by (auto simp: Let_def)
    from Cons.IH [OF this] show ?thesis by simp
  qed
qed

lemma kv_new_data_distinct: "distinct (map (\<lambda>p. kv_item_id (ke_product p)) (kv_new_data ids ps))"
proof (induction ps arbitrary: ids)
  case Nil
  then show ?case by simp
next
  case (Cons q ps)
  let ?ids' = "List.insert (kv_item_id (ke_product q)) ids"
  have "kv_item_id (ke_product q) \<notin> (\<lambda>p. kv_item_id (ke_product p)) ` set (kv_new_data ?ids' ps)"
  proof
    assume "kv_item_id (ke_product q) \<in> (\<lambda>p. kv_item_id (ke_product p)) ` set (kv_new_data ?ids' ps)"
    then obtain p where p: "p \<in> set (kv_new_data ?ids' ps)"
      and eq: "kv_item_id (ke_product q) = kv_item_id (ke_product p)" by auto
    from kv_new_data_fresh [OF p] eq show False by simp
  qed
  moreover have "distinct (map (\<lambda>p. kv_item_id (ke_product p)) (kv_new_data ?ids' ps))"
    and "distinct (map (\<lambda>p. kv_item_id (ke_product p)) (kv_new_data ids ps))"
    by (rule Cons.IH)+
  ultimately show ?case
    by (simp add: Let_def del: in_set_insert not_in_set_insert)
qed

text \<open>
  Appending the new items of a batch to a duplicate-free list keeps it duplicate-free,
  whatever the key: the new keys are truthy and not among the truthy keys already
  there.
\<close>

lemma merge_keeps_distinct:
  assumes ex: "distinct (map key existing)"
    and new: "distinct (map key new)"
    and fresh: "\<forall>p \<in> set new.
                  truthy (key p) \<and> key p \<notin> set (remdups (filter truthy (map key existing)))"
  shows "distinct (map key (existing @ new))"
proof -
  have disj: "key p \<notin> key ` set existing" if "p \<in> set new" for p
  proof
    assume "key p \<in> key ` set existing"
    then have "key p \<in> set (map key existing)" by simp
    moreover have "truthy (key p)" using fresh that by blast
    ultimately have "key p \<in> set (remdups (filter truthy (map key existing)))" by simp
    with fresh that show False by blast
  qed
  have "key ` set existing \<inter> key ` set new = {}"
  proof (rule ccontr)
    assume "key ` set existing \<inter> key ` set new \<noteq> {}"
    then obtain k where "k \<in> key ` set existing" "k \<in> key ` set new" by blast
    then obtain p where "p \<in> set new" "k = key p" by blast
    from disj [of p] \<open>p \<in> set new\<close> \<open>k = key p\<close> \<open>k \<in> key ` set existing\<close>
    show False by simp
  qed
  with ex new show ?thesis by simp
qed

lemma ah_write_products_file:
  "ah_output_file (snd (ah_write_products products s)) =
     (if products = [] \<or> ah_output_file s = Undecodable then ah_output_file s
      else Content (stored (ah_output_file s) @
             ah_new_products (remdups (filter truthy (map webshopId (stored (ah_output_file s)))))
               products))"
  by (cases "ah_output_file s")
     (simp_all add: ah_write_products_def path_exists_def Let_def log_def)

lemma jm_save_products_file:
  "jm_products_file (snd (jm_save_products products s)) =
     (if products = [] \<or> jm_products_file s = Undecodable then jm_products_file s
      else Content (stored (jm_products_file s) @
             jm_new_entries
               (remdups (filter truthy (map (\<lambda>p. jm_id (je_product p)) (stored (jm_products_file s)))))
               products))"
  by (cases "jm_products_file s")
     (simp_all add: jm_save_products_def path_exists_def Let_def log_def)

lemma kv_save_data_file:
  "kv_products_file (snd (kv_save_data data s)) =
     (if data = [] \<or> kv_products_file s = Undecodable then kv_products_file s
      else Content (stored (kv_products_file s) @
             kv_new_data
               (remdups (filter truthy
                  (map (\<lambda>item. kv_item_id (ke_product item)) (stored (kv_products_file s)))))
               data))"
  by (cases "kv_products_file s")
     (simp_all add: kv_save_data_def path_exists_def Let_def log_def)

lemma ah_write_products_distinct:
  assumes "distinct (ah_store_ids s)"
  shows "distinct (ah_store_ids (snd (ah_write_products products s)))"
proof -
  let ?ex = "stored (ah_output_file s)"
  have d: "distinct (map webshopId ?ex)"
    using assms by (simp add: ah_store_ids_def)
  let ?ids = "remdups (filter truthy (map webshopId ?ex))"
  have fresh: "\<forall>p \<in> set (ah_new_products ?ids products). truthy (webshopId p) \<and> webshopId p \<notin> set ?ids"
  proof
    fix p
    assume "p \<in> set (ah_new_products ?ids products)"
    from ah_new_products_fresh [OF this] show "truthy (webshopId p) \<and> webshopId p \<notin> set ?ids"
      by blast
  qed
  have "distinct (map webshopId (?ex @ ah_new_products ?ids products))"
    by (rule merge_keeps_distinct [OF d ah_new_products_distinct fresh])
  with d show ?thesis
    unfolding ah_store_ids_def ah_write_products_file by simp
qed

lemma jm_save_products_distinct:
  assumes "distinct (jm_store_ids s)"
  shows "distinct (jm_store_ids (snd (jm_save_products products s)))"
proof -
  let ?key = "\<lambda>p. jm_id (je_product p)"
  let ?ex = "stored (jm_products_file s)"
  have d: "distinct (map ?key ?ex)"
    using assms by (simp add: jm_store_ids_def)
  let ?ids = "remdups (filter truthy (map ?key ?ex))"
  have fresh: "\<forall>p \<in> set (jm_new_entries ?ids products). truthy (?key p) \<and> ?key p \<notin> set ?ids"
  proof
    fix p
    assume "p \<in> set (jm_new_entries ?ids products)"
    from jm_new_entries_fresh [OF this] show "truthy (?key p) \<and> ?key p \<notin> set ?ids"
      by blast
  qed
  have "distinct (map ?key (?ex @ jm_new_entries ?ids products))"
    by (rule merge_keeps_distinct [OF d jm_new_entries_distinct fresh])
  with d show ?thesis
    unfolding jm_store_ids_def jm_save_products_file by simp
qed

lemma kv_save_data_distinct:
  assumes "distinct (kv_store_ids s)"
  shows "distinct (kv_store_ids (snd (kv_save_data data s)))"
proof -
  let ?key = "\<lambda>p. kv_item_id (ke_product p)"
  let ?ex = "stored (kv_products_file s)"
  have d: "distinct (map ?key ?ex)"
    using assms by (simp add: kv_store_ids_def)
  let ?ids = "remdups (filter truthy (map ?key ?ex))"
  have fresh: "\<forall>p \<in> set (kv_new_data ?ids data). truthy (?key p) \<and> ?key p \<notin> set ?ids"
  proof
    fix p
    assume "p \<in> set (kv_new_data ?ids data)"
    from kv_new_data_fresh [OF this] show "truthy (?key p) \<and> ?key p \<notin> set ?ids"
      by blast
  qed
  have "distinct (map ?key (?ex @ kv_new_data ?ids data))"
    by (rule merge_keeps_distinct [OF d kv_new_data_distinct fresh])
  with d show ?thesis
    unfolding kv_store_ids_def kv_save_data_file by simp
qed

lemma ah_init_keeps_store:
  "ah_init cfg out pf flag = Inr s1 \<Longrightarrow> ah_output_file s1 = out"
  by (cases out; cases pf; cases flag)
     (auto simp: ah_init_def ah_load_progress_def path_exists_def Let_def log_def
           split: if_splits)

lemma jm_init_keeps_store:
  "jm_init mp cl pf pgf flag = Inr s1 \<Longrightarrow> jm_products_file s1 = pf"
  by (cases pf; cases pgf; cases flag)
     (auto simp: jm_init_def jm_load_progress_def jm_load_existing_data_def path_exists_def
                 Let_def log_def
           split: if_splits)

lemma kv_init_keeps_store:
  "kv_init mp pf pgf flag = Inr s1 \<Longrightarrow> kv_products_file s1 = pf"
  by (cases pf; cases pgf; cases flag)
     (auto simp: kv_init_def kv_load_progress_def path_exists_def Let_def log_def
           split: if_splits)

lemma ah_store_event_distinct:
  "distinct (ah_store_ids s) \<Longrightarrow> distinct (ah_store_ids (ah_store_event ev s))"
proof (cases ev)
  case (Persist ps)
  assume "distinct (ah_store_ids s)"
  with Persist show ?thesis by (simp add: ah_write_products_distinct)
next
  case Killed_while_writing
  then show ?thesis by (simp add: ah_store_ids_def)
next
  case Killed_inside_a_character
  then show ?thesis by (simp add: ah_store_ids_def)
next
  case Restart
  assume d: "distinct (ah_store_ids s)"
  show ?thesis
  proof (cases "ah_init (if ah_config_loaded s
                    then Some \<lparr>cfg_max_products = ah_max_products_limit s,
                               cfg_categories_limit = ah_categories_limit s\<rparr>
                    else None)
             (ah_output_file s) (ah_progress_file s) (ah_completed_flag s)")
    case (Inl e)
    with Restart d show ?thesis by simp
  next
    case (Inr s1)
    from ah_init_keeps_store [OF Inr] have "ah_store_ids s1 = ah_store_ids s"
      by (simp add: ah_store_ids_def)
    with Restart Inr d show ?thesis by simp
  qed
qed

lemma jm_store_event_distinct:
  "distinct (jm_store_ids s) \<Longrightarrow> distinct (jm_store_ids (jm_store_event ev s))"
proof (cases ev)
  case (Persist ps)
  assume "distinct (jm_store_ids s)"
  with Persist show ?thesis by (simp add: jm_save_products_distinct)
next
  case Killed_while_writing
  then show ?thesis by (simp add: jm_store_ids_def)
next
  case Killed_inside_a_character
  then show ?thesis by (simp add: jm_store_ids_def)
next
  case Restart
  assume d: "distinct (jm_store_ids s)"
  show ?thesis
  proof (cases "jm_init (jm_max_products s) (jm_categories_limit s)
             (jm_products_file s) (jm_progress_file s) (jm_completed_flag s)")
    case (Inl e)
    with Restart d show ?thesis by simp
  next
    case (Inr s1)
    from jm_init_keeps_store [OF Inr] have "jm_store_ids s1 = jm_store_ids s"
      by (simp add: jm_store_ids_def)
    with Restart Inr d show ?thesis by simp
  qed
qed

lemma kv_store_event_distinct:
  "distinct (kv_store_ids s) \<Longrightarrow> distinct (kv_store_ids (kv_store_event ev s))"
proof (cases ev)
  case (Persist ps)
  assume "distinct (kv_store_ids s)"
  with Persist show ?thesis by (simp add: kv_save_data_distinct)
next
  case Killed_while_writing
  then show ?thesis by (simp add: kv_store_ids_def)
next
  case Killed_inside_a_character
  then show ?thesis by (simp add: kv_store_ids_def)
next
  case Restart
  assume d: "distinct (kv_store_ids s)"
  show ?thesis
  proof (cases "kv_init (kv_max_products_limit s)
             (kv_products_file s) (kv_progress_file s) (kv_completed_flag s)")
    case (Inl e)
    with Restart d show ?thesis by simp
  next
    case (Inr s1)
    from kv_init_keeps_store [OF Inr] have "kv_store_ids s1 = kv_store_ids s"
      by (simp add: kv_store_ids_def)
    with Restart Inr d show ?thesis by simp
  qed
qed

lemma ah_run_distinct:
  "distinct (ah_store_ids s) \<Longrightarrow> distinct (ah_store_ids (fold ah_store_event evs s))"
  by (induction evs arbitrary: s) (simp_all add: ah_store_event_distinct)

lemma jm_run_distinct:
  "distinct (jm_store_ids s) \<Longrightarrow> distinct (jm_store_ids (fold jm_store_event evs s))"
  by (induction evs arbitrary: s) (simp_all add: jm_store_event_distinct)

lemma kv_run_distinct:
  "distinct (kv_store_ids s) \<Longrightarrow> distinct (kv_store_ids (fold kv_store_event evs s))"
  by (induction evs arbitrary: s) (simp_all add: kv_store_event_distinct)

lemma ah_write_products_appends:
  "\<exists>new. stored (ah_output_file (snd (ah_write_products batch s))) = stored (ah_output_file s) @ new
         \<and> set new \<subseteq> set batch
         \<and> (\<forall>p \<in> set new. truthy (webshopId p) \<and> webshopId p \<notin> set (ah_store_ids s))"
proof (cases "batch = [] \<or> ah_output_file s = Undecodable")
  case True
  then have "stored (ah_output_file (snd (ah_write_products batch s))) = stored (ah_output_file s) @ []"
    by (auto simp add: ah_write_products_file)
  then show ?thesis by (intro exI [where x = "[]"]) simp
next
  case False
  let ?ids = "remdups (filter truthy (map webshopId (stored (ah_output_file s))))"
  let ?new = "ah_new_products ?ids batch"
  have "stored (ah_output_file (snd (ah_write_products batch s))) = stored (ah_output_file s) @ ?new"
    using False by (simp add: ah_write_products_file)
  moreover have "set ?new \<subseteq> set batch"
    using ah_new_products_fresh by blast
  moreover have "\<forall>p \<in> set ?new. truthy (webshopId p) \<and> webshopId p \<notin> set (ah_store_ids s)"
  proof
    fix p
    assume "p \<in> set ?new"
    from ah_new_products_fresh [OF this]
    have "truthy (webshopId p)" and "webshopId p \<notin> set ?ids" by blast+
    then show "truthy (webshopId p) \<and> webshopId p \<notin> set (ah_store_ids s)"
      by (simp add: ah_store_ids_def)
  qed
  ultimately show ?thesis by blast
qed

lemma jm_save_products_appends:
  "\<exists>new. stored (jm_products_file (snd (jm_save_products batch s))) = stored (jm_products_file s) @ new
         \<and> set new \<subseteq> set batch
         \<and> (\<forall>p \<in> set new. truthy (jm_id (je_product p)) \<and> jm_id (je_product p) \<notin> set (jm_store_ids s))"
proof (cases "batch = [] \<or> jm_products_file s = Undecodable")
  case True
  then have "stored (jm_products_file (snd (jm_save_products batch s))) = stored (jm_products_file s) @ []"
    by (auto simp add: jm_save_products_file)
  then show ?thesis by (intro exI [where x = "[]"]) simp
next
  case False
  let ?ids = "remdups (filter truthy (map (\<lambda>p. jm_id (je_product p)) (stored (jm_products_file s))))"
  let ?new = "jm_new_entries ?ids batch"
  have "stored (jm_products_file (snd (jm_save_products batch s))) = stored (jm_products_file s) @ ?new"
    using False by (simp add: jm_save_products_file)
  moreover have "set ?new \<subseteq> set batch"
    using jm_new_entries_fresh by blast
  moreover have "\<forall>p \<in> set ?new. truthy (jm_id (je_product p)) \<and> jm_id (je_product p) \<notin> set (jm_store_ids s)"
  proof
    fix p
    assume "p \<in> set ?new"
    from jm_new_entries_fresh [OF this]
    have "truthy (jm_id (je_product p))" and "jm_id (je_product p) \<notin> set ?ids" by blast+
    then show "truthy (jm_id (je_product p)) \<and> jm_id (je_product p) \<notin> set (jm_store_ids s)"
      by (simp add: jm_store_ids_def)
  qed
  ultimately show ?thesis by blast
qed

lemma kv_save_data_appends:
  "\<exists>new. stored (kv_products_file (snd (kv_save_data batch s))) = stored (kv_products_file s) @ new
         \<and> set new \<subseteq> set batch
         \<and> (\<forall>p \<in> set new. truthy (kv_item_id (ke_product p)) \<and> kv_item_id (ke_product p) \<notin> set (kv_store_ids s))"
proof (cases "batch = [] \<or> kv_products_file s = Undecodable")
  case True
  then have "stored (kv_products_file (snd (kv_save_data batch s))) = stored (kv_products_file s) @ []"
    by (auto simp add: kv_save_data_file)
  then show ?thesis by (intro exI [where x = "[]"]) simp
next
  case False
  let ?ids = "remdups (filter truthy (map (\<lambda>p. kv_item_id (ke_product p)) (stored (kv_products_file s))))"
  let ?new = "kv_new_data ?ids batch"
  have "stored (kv_products_file (snd (kv_save_data batch s))) = stored (kv_products_file s) @ ?new"
    using False by (simp add: kv_save_data_file)
  moreover have "set ?new \<subseteq> set batch"
    using kv_new_data_fresh by blast
  moreover have "\<forall>p \<in> set ?new. truthy (kv_item_id (ke_product p)) \<and> kv_item_id (ke_product p) \<notin> set (kv_store_ids s)"
  proof
    fix p
    assume "p \<in> set ?new"
    from kv_new_data_fresh [OF this]
    have "truthy (kv_item_id (ke_product p))" and "kv_item_id (ke_product p) \<notin> set ?ids" by blast+
    then show "truthy (kv_item_id (ke_product p)) \<and> kv_item_id (ke_product p) \<notin> set (kv_store_ids s)"
      by (simp add: kv_store_ids_def)
  qed
  ultimately show ?thesis by blast
qed


text \<open>
  C1. Over every run of saves, process deaths during a save and restarts, a store that
  held each external id at most once keeps doing so (a store that does not exist yet
  holds none), in the AH, Jumbo and Kruidvat scrapers; and each save only appends to the
  records already stored, appending items of the batch whose id is truthy and not yet
  in the file.
\<close>

theorem store_never_holds_an_id_twice:
  "(distinct (ah_store_ids a) \<longrightarrow> distinct (ah_store_ids (fold ah_store_event evs_a a)))
   \<and> (distinct (jm_store_ids j) \<longrightarrow> distinct (jm_store_ids (fold jm_store_event evs_j j)))
   \<and> (distinct (kv_store_ids k) \<longrightarrow> distinct (kv_store_ids (fold kv_store_event evs_k k)))
   \<and> (\<exists>new. stored (ah_output_file (snd (ah_write_products batch_a a)))
                 = stored (ah_output_file a) @ new
          \<and> set new \<subseteq> set batch_a
          \<and> (\<forall>p \<in> set new. truthy (webshopId p) \<and> webshopId p \<notin> set (ah_store_ids a)))
   \<and> (\<exists>new. stored (jm_products_file (snd (jm_save_products batch_j j)))
                 = stored (jm_products_file j) @ new
          \<and> set new \<subseteq> set batch_j
          \<and> (\<forall>p \<in> set new. truthy (jm_id (je_product p))
                                \<and> jm_id (je_product p) \<notin> set (jm_store_ids j)))
   \<and> (\<exists>new. stored (kv_products_file (snd (kv_save_data batch_k k)))
                 = stored (kv_products_file k) @ new
          \<and> set new \<subseteq> set batch_k
          \<and> (\<forall>p \<in> set new. truthy (kv_item_id (ke_product p))
                                \<and> kv_item_id (ke_product p) \<notin> set (kv_store_ids k)))"
  using ah_run_distinct [of a evs_a] jm_run_distinct [of j evs_j] kv_run_distinct [of k evs_k]
        ah_write_products_appends [of batch_a a] jm_save_products_appends [of batch_j j]
        kv_save_data_appends [of batch_k k]
  by (intro conjI impI) assumption+

theorem store_never_holds_an_id_twice_witness:
  "distinct (ah_store_ids ah_blank)
   \<and> distinct (ah_store_ids
        (fold ah_store_event
           [Persist [ah_item 1, ah_item 2, ah_item 1], Restart, Persist [ah_item 2, ah_item 3],
            Killed_while_writing, Persist [ah_item 3, ah_item 3]] ah_blank))
   \<and> distinct (jm_store_ids jm_blank)
   \<and> distinct (jm_store_ids
        (fold jm_store_event
           [Persist [jm_stored_item 1, jm_stored_item 1], Restart, Persist [jm_stored_item 1]]
           jm_blank))
   \<and> distinct (kv_store_ids kv_blank)
   \<and> distinct (kv_store_ids
        (fold kv_store_event
           [Persist [kv_stored_item 5, kv_stored_item 5], Restart, Persist [kv_stored_item 5]]
           kv_blank))
   \<and> stored (ah_output_file
        (fold ah_store_event
           [Persist [ah_item 1, ah_item 2, ah_item 1], Restart, Persist [ah_item 2, ah_item 3]]
           ah_blank))
      = [ah_item 1, ah_item 2, ah_item 3]"
  using store_never_holds_an_id_twice
          [where a = ah_blank and j = jm_blank and k = kv_blank
             and evs_a = "[Persist [ah_item 1, ah_item 2, ah_item 1], Restart,
                           Persist [ah_item 2, ah_item 3],
                           Killed_while_writing, Persist [ah_item 3, ah_item 3]]"
             and evs_j = "[Persist [jm_stored_item 1, jm_stored_item 1], Restart,
                           Persist [jm_stored_item 1]]"
             and evs_k = "[Persist [kv_stored_item 5, kv_stored_item 5], Restart,
                           Persist [kv_stored_item 5]]"]
  by (simp add: ah_store_ids_def jm_store_ids_def kv_store_ids_def ah_blank_def jm_blank_def
                kv_blank_def ah_write_products_def ah_init_def ah_load_progress_def
                path_exists_def ah_item_def Let_def log_def)

section \<open>Loading persisted state\<close>

text \<open>
  What the handlers around the loads do recover from. A missing file is skipped by the
  \<open>os.path.exists\<close> guard: the state is left as constructed and nothing is logged. A
  file of text that is not JSON is treated as empty and one warning is logged. In both
  cases the load returns normally.
\<close>

lemma missing_or_corrupt_json_is_recovered:
  "(ah_progress_file a \<noteq> Undecodable \<longrightarrow> fst (ah_load_progress a) = Inr ())
   \<and> (ah_output_file a \<noteq> Undecodable \<longrightarrow> fst (ah_write_products batch a) = Inr ())
   \<and> (jm_progress_file j \<noteq> Undecodable \<longrightarrow> fst (jm_load_progress j) = Inr ())
   \<and> (ah_progress_file a = Missing \<longrightarrow> snd (ah_load_progress a) = a)
   \<and> (ah_progress_file a = Corrupt \<longrightarrow>
        snd (ah_load_progress a)
          = log WARNING [Txt ''Progress file corrupted, starting fresh''] a)
   \<and> (ah_output_file a = Missing \<longrightarrow> batch \<noteq> [] \<longrightarrow>
        snd (ah_write_products batch a)
          = a\<lparr>ah_output_file := Content (ah_new_products [] batch)\<rparr>)
   \<and> (ah_output_file a = Corrupt \<longrightarrow> batch \<noteq> [] \<longrightarrow>
        snd (ah_write_products batch a)
          = (log WARNING [Txt ''Products file corrupted or missing, starting fresh''] a)
              \<lparr>ah_output_file := Content (ah_new_products [] batch)\<rparr>)
   \<and> (jm_progress_file j = Missing \<longrightarrow> snd (jm_load_progress j) = j)
   \<and> (jm_progress_file j = Corrupt \<longrightarrow>
        snd (jm_load_progress j)
          = (log WARNING [Txt ''Progress file corrupted, starting fresh''] j)
              \<lparr>jm_current_offset := 0\<rparr>)"
proof -
  have 1: "ah_progress_file a \<noteq> Undecodable \<longrightarrow> fst (ah_load_progress a) = Inr ()"
    by (cases "ah_progress_file a") (simp_all add: ah_load_progress_def path_exists_def)
  have 2: "ah_output_file a \<noteq> Undecodable \<longrightarrow> fst (ah_write_products batch a) = Inr ()"
    by (cases "ah_output_file a") (simp_all add: ah_write_products_def path_exists_def Let_def)
  have 3: "jm_progress_file j \<noteq> Undecodable \<longrightarrow> fst (jm_load_progress j) = Inr ()"
    by (cases "jm_progress_file j") (simp_all add: jm_load_progress_def path_exists_def Let_def)
  have 4: "ah_progress_file a = Missing \<longrightarrow> snd (ah_load_progress a) = a"
    by (simp add: ah_load_progress_def path_exists_def)
  have 5: "ah_progress_file a = Corrupt \<longrightarrow>
        snd (ah_load_progress a) = log WARNING [Txt ''Progress file corrupted, starting fresh''] a"
    by (simp add: ah_load_progress_def path_exists_def)
  have 6: "ah_output_file a = Missing \<longrightarrow> batch \<noteq> [] \<longrightarrow>
        snd (ah_write_products batch a) = a\<lparr>ah_output_file := Content (ah_new_products [] batch)\<rparr>"
    by (simp add: ah_write_products_def path_exists_def Let_def)
  have 7: "ah_output_file a = Corrupt \<longrightarrow> batch \<noteq> [] \<longrightarrow>
        snd (ah_write_products batch a)
          = (log WARNING [Txt ''Products file corrupted or missing, starting fresh''] a)
              \<lparr>ah_output_file := Content (ah_new_products [] batch)\<rparr>"
    by (simp add: ah_write_products_def path_exists_def Let_def)
  have 8: "jm_progress_file j = Missing \<longrightarrow> snd (jm_load_progress j) = j"
    by (simp add: jm_load_progress_def path_exists_def)
  have 9: "jm_progress_file j = Corrupt \<longrightarrow>
        snd (jm_load_progress j)
          = (log WARNING [Txt ''Progress file corrupted, starting fresh''] j)\<lparr>jm_current_offset := 0\<rparr>"
    by (simp add: jm_load_progress_def path_exists_def)
  from 1 2 3 4 5 6 7 8 9 show ?thesis by blast
qed

lemma missing_progress_file_is_skipped_silently:
  "ah_progress_file ah_blank = Missing
   \<and> ah_init None Missing Missing Missing = Inr ah_blank
   \<and> logs ah_blank = []"
  by (simp add: ah_init_def ah_load_progress_def ah_blank_def path_exists_def)

text \<open>
  C8 (where the code departs from it). The handlers around the loads name
  \<open>json.JSONDecodeError\<close> (and, for the product store, \<open>FileNotFoundError\<close>) only. A
  persisted file that exists but whose bytes are not text - a file cut inside a
  multi-byte character is one - makes \<open>json.load\<close> raise \<open>UnicodeDecodeError\<close>, which
  those handlers do not catch. So for every scraper state and every other file:
  \<^item> \<open>load_progress\<close> (AH, Jumbo) raises, leaving the state as it was and logging no
    warning, and the constructor, which calls it when there is no completion marker,
    raises with it: no scraper object exists and the run is over before it started;
  \<^item> with a completion marker, the constructor reads the product store to count it and
    raises in the same way (AH, and Jumbo's \<open>load_existing_data\<close>);
  \<^item> \<open>write_products\<close> (AH) with a non-empty batch raises before it writes anything.
\<close>

theorem undecodable_persisted_state_raises:
  "ah_load_progress (a\<lparr>ah_progress_file := Undecodable\<rparr>)
     = (Inl UnicodeDecodeError, a\<lparr>ah_progress_file := Undecodable\<rparr>)
   \<and> ah_init cfg out_a Undecodable Missing = Inl UnicodeDecodeError
   \<and> ah_init cfg Undecodable pf_a (Content marker_a) = Inl UnicodeDecodeError
   \<and> ah_write_products (p # batch) (a\<lparr>ah_output_file := Undecodable\<rparr>)
     = (Inl UnicodeDecodeError, a\<lparr>ah_output_file := Undecodable\<rparr>)
   \<and> jm_load_progress (j\<lparr>jm_progress_file := Undecodable\<rparr>)
     = (Inl UnicodeDecodeError, j\<lparr>jm_progress_file := Undecodable\<rparr>)
   \<and> jm_init mp cl out_j Undecodable Missing = Inl UnicodeDecodeError
   \<and> jm_init mp cl Undecodable pf_j (Content marker_j) = Inl UnicodeDecodeError"
proof -
  have 1: "ah_load_progress (a\<lparr>ah_progress_file := Undecodable\<rparr>)
     = (Inl UnicodeDecodeError, a\<lparr>ah_progress_file := Undecodable\<rparr>)"
    by (simp add: ah_load_progress_def path_exists_def)
  have 2: "ah_init cfg out_a Undecodable Missing = Inl UnicodeDecodeError"
    by (simp add: ah_init_def ah_load_progress_def path_exists_def Let_def)
  have 3: "ah_init cfg Undecodable pf_a (Content marker_a) = Inl UnicodeDecodeError"
    by (simp add: ah_init_def path_exists_def Let_def)
  have 4: "ah_write_products (p # batch) (a\<lparr>ah_output_file := Undecodable\<rparr>)
     = (Inl UnicodeDecodeError, a\<lparr>ah_output_file := Undecodable\<rparr>)"
    by (simp add: ah_write_products_def path_exists_def Let_def)
  have 5: "jm_load_progress (j\<lparr>jm_progress_file := Undecodable\<rparr>)
     = (Inl UnicodeDecodeError, j\<lparr>jm_progress_file := Undecodable\<rparr>)"
    by (simp add: jm_load_progress_def path_exists_def)
  have 6: "jm_init mp cl out_j Undecodable Missing = Inl UnicodeDecodeError"
    by (simp add: jm_init_def jm_load_progress_def path_exists_def Let_def)
  have 7: "jm_init mp cl Undecodable pf_j (Content marker_j) = Inl UnicodeDecodeError"
    by (simp add: jm_init_def jm_load_existing_data_def path_exists_def Let_def)
  from 1 2 3 4 5 6 7 show ?thesis by blast
qed

theorem undecodable_persisted_state_raises_witness:
  "ah_init None Missing Undecodable Missing = Inl UnicodeDecodeError
   \<and> jm_init None None Missing Undecodable Missing = Inl UnicodeDecodeError
   \<and> fst (ah_write_products [ah_item 1] (ah_blank\<lparr>ah_output_file := Undecodable\<rparr>))
       = Inl UnicodeDecodeError
   \<and> logs (snd (ah_load_progress (ah_blank\<lparr>ah_progress_file := Undecodable\<rparr>))) = []"
  using undecodable_persisted_state_raises
          [where a = ah_blank and cfg = None and out_a = Missing and p = "ah_item 1"
             and batch = "[]" and mp = None and cl = None and out_j = Missing]
  by (simp add: ah_blank_def)

section \<open>The progress monitor\<close>



section \<open>The completion marker\<close>





section \<open>Retries and throttling\<close>

lemma jm_attempts_bound:
  "requests_made (snd (jm_attempts net as s)) \<le> requests_made s + length as"
proof (induction as arbitrary: s)
  case Nil
  then show ?case by simp
next
  case (Cons a as)
  let ?s1 = "if a > 0 then sleep_for (Backoff a) s else s"
  have r1: "requests_made ?s1 = requests_made s"
    by (simp add: sleep_for_def)
  obtain resp s2 where sd: "send net ?s1 = (resp, s2)" by (cases "send net ?s1")
  then have r2: "requests_made s2 = Suc (requests_made s)"
    using r1 by (auto simp: send_def)
  show ?case
  proof (cases resp)
    case (Raises e)
    have "requests_made
            (snd (jm_attempts net as
                    (log WARNING [Txt ''Request error on attempt '', Num (int a + 1)] s2)))
          \<le> requests_made (log WARNING [Txt ''Request error on attempt '', Num (int a + 1)] s2)
              + length as"
      by (rule Cons.IH)
    then show ?thesis
      using sd Raises r2 by (simp add: Let_def log_def)
  next
    case (Response code body)
    show ?thesis
    proof (cases "code = 200")
      case True
      then show ?thesis
        using sd Response r2 by (cases body) (simp_all add: Let_def log_def)
    next
      case False
      show ?thesis
      proof (cases "code = 429")
        case True
        let ?s3 = "sleep_for (Cooldown 5)
                    ((log WARNING [Txt ''Rate limited on attempt '', Num (int a + 1),
                                   Txt '', increasing delay''] s2)
                       \<lparr>jm_base_delay := min (jm_base_delay s2 * (3 / 2)) 2\<rparr>)"
        have "requests_made (snd (jm_attempts net as ?s3)) \<le> requests_made ?s3 + length as"
          by (rule Cons.IH)
        moreover have "requests_made ?s3 = Suc (requests_made s)"
          using r2 by (simp add: sleep_for_def log_def)
        ultimately show ?thesis
          using sd Response True by (simp add: Let_def)
      next
        case not429: False
        then show ?thesis
          using sd Response False r2 by (simp add: Let_def log_def)
      qed
    qed
  qed
qed

lemma jm_attempts_throttled:
  "throttled (net (requests_made s)) \<Longrightarrow>
   jm_attempts net (a # as) s = jm_attempts net as (jm_after_throttle a s)"
  by (cases "net (requests_made s)")
     (simp_all add: throttled_def jm_after_throttle_def send_def sleep_for_def log_def Let_def)

lemma jm_after_throttle_fields:
  "requests_made (jm_after_throttle a s) = Suc (requests_made s)"
  "jm_failed_requests (jm_after_throttle a s) = jm_failed_requests s"
  "jm_successful_requests (jm_after_throttle a s) = jm_successful_requests s"
  "jm_max_retries (jm_after_throttle a s) = jm_max_retries s"
  "count_list (sleeps (jm_after_throttle a s)) (Cooldown 5)
     = Suc (count_list (sleeps s) (Cooldown 5))"
  by (simp_all add: jm_after_throttle_def sleep_for_def log_def Let_def)

lemma jm_fold_throttle_fields:
  "requests_made (fold jm_after_throttle xs s) = requests_made s + length xs"
  "jm_failed_requests (fold jm_after_throttle xs s) = jm_failed_requests s"
  "jm_successful_requests (fold jm_after_throttle xs s) = jm_successful_requests s"
  "jm_max_retries (fold jm_after_throttle xs s) = jm_max_retries s"
  "count_list (sleeps (fold jm_after_throttle xs s)) (Cooldown 5)
     = count_list (sleeps s) (Cooldown 5) + length xs"
  by (induction xs arbitrary: s) (simp_all add: jm_after_throttle_fields)

lemma jm_attempts_throttled_run:
  "k \<le> length as \<Longrightarrow> (\<forall>i<k. throttled (net (requests_made s + i))) \<Longrightarrow>
   jm_attempts net as s = jm_attempts net (drop k as) (fold jm_after_throttle (take k as) s)"
proof (induction k arbitrary: as s)
  case 0
  then show ?case by simp
next
  case (Suc k)
  then obtain a rest where as: "as = a # rest" by (cases as) auto
  from Suc.prems have first: "throttled (net (requests_made s))" by force
  have later: "\<forall>i<k. throttled (net (requests_made (jm_after_throttle a s) + i))"
  proof (intro allI impI)
    fix i assume "i < k"
    then have "Suc i < Suc k" by simp
    with Suc.prems(2) have "throttled (net (requests_made s + Suc i))" by blast
    then show "throttled (net (requests_made (jm_after_throttle a s) + i))"
      by (simp add: jm_after_throttle_fields)
  qed
  from Suc.prems as have len: "k \<le> length rest" by simp
  have "jm_attempts net (a # rest) s = jm_attempts net rest (jm_after_throttle a s)"
    using first by (rule jm_attempts_throttled [where net = net and s = s])
  with Suc.IH [OF len later] show ?case by (simp add: as)
qed

lemma jm_attempts_success:
  "net (requests_made s) = Response 200 (Some body) \<Longrightarrow> jb_has_data body \<Longrightarrow> \<not> jb_errors body \<Longrightarrow>
   \<exists>s1. jm_attempts net (a # as) s = ((Some (jb_data body), True), s1)
      \<and> requests_made s1 = Suc (requests_made s)
      \<and> jm_failed_requests s1 = jm_failed_requests s
      \<and> jm_successful_requests s1 = Suc (jm_successful_requests s)
      \<and> count_list (sleeps s1) (Cooldown 5) = count_list (sleeps s) (Cooldown 5)"
  by (simp add: send_def sleep_for_def Let_def)

lemma jm_attempts_other_status:
  "net (requests_made s) = Response code body \<Longrightarrow> code \<noteq> 200 \<Longrightarrow> code \<noteq> 429 \<Longrightarrow>
   \<exists>s1. jm_attempts net (a # as) s = ((None, False), s1)
      \<and> requests_made s1 = Suc (requests_made s)
      \<and> jm_failed_requests s1 = jm_failed_requests s"
  by (simp add: send_def sleep_for_def log_def Let_def)

lemma ah_attempt_fields:
  "requests_made (snd (ah_attempt net a s)) = Suc (requests_made s)"
  "ah_max_retries (snd (ah_attempt net a s)) = ah_max_retries s"
proof -
  show "requests_made (snd (ah_attempt net a s)) = Suc (requests_made s)"
    by (cases "net (requests_made s)")
       (auto simp: ah_attempt_def send_def sleep_for_def log_def Let_def ah_handle_response_def
             split: py_exn.splits option.splits)
  show "ah_max_retries (snd (ah_attempt net a s)) = ah_max_retries s"
    by (cases "net (requests_made s)")
       (auto simp: ah_attempt_def send_def sleep_for_def log_def Let_def ah_handle_response_def
             split: py_exn.splits option.splits)
qed

lemma ah_attempt_failing:
  "ah_failing (net (requests_made s)) \<Longrightarrow> \<exists>e. fst (ah_attempt net a s) = Inl e"
  by (cases "net (requests_made s)")
     (auto simp: ah_attempt_def ah_failing_def send_def sleep_for_def log_def Let_def
                 ah_handle_response_def
           split: py_exn.splits option.splits)

lemma ah_attempt_throttled:
  "throttled (net (requests_made s)) \<Longrightarrow>
     fst (ah_attempt net a s) = Inl (ClientError [Txt ''Rate limited''])
     \<and> count_list (sleeps (snd (ah_attempt net a s))) (Cooldown 5)
         = Suc (count_list (sleeps s) (Cooldown 5))"
  by (cases "net (requests_made s)")
     (auto simp: ah_attempt_def throttled_def send_def sleep_for_def log_def Let_def
                 ah_handle_response_def)

lemma ah_attempt_success:
  "net (requests_made s) = Response 200 (Some data) \<Longrightarrow>
     fst (ah_attempt net a s) = Inr (Some data)"
  by (simp add: ah_attempt_def send_def sleep_for_def Let_def ah_handle_response_def)

lemma ah_attempts_bound:
  "requests_made (snd (ah_attempts net as s)) \<le> requests_made s + length as"
proof (induction as arbitrary: s)
  case Nil
  then show ?case by simp
next
  case (Cons a as)
  obtain r s4 where att: "ah_attempt net a s = (r, s4)" by (cases "ah_attempt net a s")
  then have rm: "requests_made s4 = Suc (requests_made s)"
    using ah_attempt_fields(1) [of net a s] by simp
  show ?case
  proof (cases r)
    case (Inr data)
    with att rm show ?thesis by simp
  next
    case (Inl e)
    have "requests_made (snd (ah_attempts net as s4)) \<le> requests_made s4 + length as"
      by (rule Cons.IH)
    with att Inl rm show ?thesis by simp
  qed
qed

lemma ah_attempts_failing_then_success:
  "ah_max_retries s = n \<Longrightarrow> a + k < n \<Longrightarrow>
   (\<forall>i<k. ah_failing (net (requests_made s + i))) \<Longrightarrow>
   net (requests_made s + k) = Response 200 (Some data) \<Longrightarrow>
   \<exists>s'. ah_attempts net [a..<n] s = (Inr (Some data), s')
      \<and> requests_made s' = requests_made s + k + 1"
proof (induction k arbitrary: a s)
  case 0
  then have upt: "[a..<n] = a # [Suc a..<n]" by (simp add: upt_conv_Cons)
  obtain r s3 where att: "ah_attempt net a s = (r, s3)" by (cases "ah_attempt net a s")
  from 0 have "fst (ah_attempt net a s) = Inr (Some data)"
    by (simp add: ah_attempt_success)
  with att have "r = Inr (Some data)" by simp
  with att upt ah_attempt_fields(1) [of net a s] show ?case by simp
next
  case (Suc k)
  then have upt: "[a..<n] = a # [Suc a..<n]" by (simp add: upt_conv_Cons)
  obtain r s4 where att: "ah_attempt net a s = (r, s4)" by (cases "ah_attempt net a s")
  from Suc.prems have "ah_failing (net (requests_made s))" by force
  from ah_attempt_failing [where net = net and s = s and a = a, OF this] att
  obtain e where r: "r = Inl e" by auto
  from att have rm: "requests_made s4 = Suc (requests_made s)"
    and mr: "ah_max_retries s4 = n"
    using ah_attempt_fields [of net a s] Suc.prems(1) by simp_all
  have notlast: "int a \<noteq> int (ah_max_retries s) - 1"
    using Suc.prems(1,2) by simp
  have later: "\<forall>i<k. ah_failing (net (requests_made s4 + i))"
  proof (intro allI impI)
    fix i assume "i < k"
    then have "Suc i < Suc k" by simp
    with Suc.prems(3) have "ah_failing (net (requests_made s + Suc i))" by blast
    then show "ah_failing (net (requests_made s4 + i))" by (simp add: rm)
  qed
  have succ: "net (requests_made s4 + k) = Response 200 (Some data)"
    using Suc.prems(4) by (simp add: rm)
  have "Suc a + k < n" using Suc.prems(2) by simp
  from Suc.IH [OF mr this later succ]
  obtain s' where "ah_attempts net [Suc a..<n] s4 = (Inr (Some data), s')"
    and "requests_made s' = requests_made s4 + k + 1" by blast
  with att r notlast upt rm show ?case by simp
qed

lemma ah_attempts_all_failing:
  "ah_max_retries s = n \<Longrightarrow> a + d = n \<Longrightarrow> 0 < d \<Longrightarrow>
   (\<forall>i<d. ah_failing (net (requests_made s + i))) \<Longrightarrow>
   \<exists>e s'. ah_attempts net [a..<n] s = (Inl e, s')
      \<and> requests_made s' = requests_made s + d
      \<and> (throttled (net (requests_made s + (d - 1))) \<longrightarrow> e = ClientError [Txt ''Rate limited''])"
proof (induction d arbitrary: a s)
  case 0
  then show ?case by simp
next
  case (Suc d)
  then have upt: "[a..<n] = a # [Suc a..<n]" by (simp add: upt_conv_Cons)
  obtain r s4 where att: "ah_attempt net a s = (r, s4)" by (cases "ah_attempt net a s")
  from Suc.prems have "ah_failing (net (requests_made s))" by force
  from ah_attempt_failing [where net = net and s = s and a = a, OF this] att
  obtain e where r: "r = Inl e" by auto
  from att have rm: "requests_made s4 = Suc (requests_made s)"
    and mr: "ah_max_retries s4 = n"
    using ah_attempt_fields [of net a s] Suc.prems(1) by simp_all
  show ?case
  proof (cases "d = 0")
    case True
    with Suc.prems have last: "int a = int (ah_max_retries s) - 1" by simp
    have "throttled (net (requests_made s)) \<longrightarrow> e = ClientError [Txt ''Rate limited'']"
      using ah_attempt_throttled [of net s a] att r by simp
    with True att r last upt rm show ?thesis by simp
  next
    case False
    then have dpos: "0 < d" by simp
    have notlast: "int a \<noteq> int (ah_max_retries s) - 1"
      using Suc.prems(1,2) dpos by simp
    have later: "\<forall>i<d. ah_failing (net (requests_made s4 + i))"
    proof (intro allI impI)
      fix i assume "i < d"
      then have "Suc i < Suc d" by simp
      with Suc.prems(4) have "ah_failing (net (requests_made s + Suc i))" by blast
      then show "ah_failing (net (requests_made s4 + i))" by (simp add: rm)
    qed
    have "Suc a + d = n" using Suc.prems(2) by simp
    from Suc.IH [OF mr this dpos later]
    obtain e' s' where "ah_attempts net [Suc a..<n] s4 = (Inl e', s')"
      and "requests_made s' = requests_made s4 + d"
      and "throttled (net (requests_made s4 + (d - 1))) \<longrightarrow> e' = ClientError [Txt ''Rate limited'']"
      by blast
    with att r notlast upt rm dpos show ?thesis by simp
  qed
qed

lemma jm_request_bound:
  "requests_made (snd (jm_make_graphql_request net s)) \<le> requests_made s + jm_max_retries s"
  using jm_attempts_bound [of net "[0..<jm_max_retries s]" s]
  by (simp add: jm_make_graphql_request_def)

lemma jm_request_throttled_then_success:
  assumes k: "k < jm_max_retries s"
    and thr: "\<forall>i<k. throttled (net (requests_made s + i))"
    and ok: "net (requests_made s + k) = Response 200 (Some body)"
    and body: "jb_has_data body" "\<not> jb_errors body"
  shows "\<exists>s'. jm_make_graphql_request net s = ((Some (jb_data body), True), s')
            \<and> requests_made s' = requests_made s + k + 1
            \<and> jm_failed_requests s' = jm_failed_requests s
            \<and> jm_successful_requests s' = Suc (jm_successful_requests s)
            \<and> count_list (sleeps s') (Cooldown 5) = count_list (sleeps s) (Cooldown 5) + k"
proof -
  let ?n = "jm_max_retries s"
  let ?sk = "fold jm_after_throttle (take k [0..<?n]) s"
  have len: "k \<le> length [0..<?n]" using k by simp
  have run: "jm_attempts net [0..<?n] s = jm_attempts net (drop k [0..<?n]) ?sk"
    by (rule jm_attempts_throttled_run [OF len thr])
  have "drop k [0..<?n] = [0 + k..<?n]" by (rule drop_upt)
  also have "\<dots> = k # [Suc k..<?n]" using k by (simp add: upt_conv_Cons)
  finally have dr: "drop k [0..<?n] = k # [Suc k..<?n]" .
  have tk: "length (take k [0..<?n]) = k" using k by simp
  have rk: "requests_made ?sk = requests_made s + k"
    using jm_fold_throttle_fields(1) [of "take k [0..<?n]" s] tk by simp
  have "net (requests_made ?sk) = Response 200 (Some body)"
    using ok rk by simp
  from jm_attempts_success [where net = net and s = ?sk and a = k and as = "[Suc k..<?n]",
                             OF this body]
  obtain s1 where s1: "jm_attempts net (k # [Suc k..<?n]) ?sk = ((Some (jb_data body), True), s1)"
      "requests_made s1 = Suc (requests_made ?sk)"
      "jm_failed_requests s1 = jm_failed_requests ?sk"
      "jm_successful_requests s1 = Suc (jm_successful_requests ?sk)"
      "count_list (sleeps s1) (Cooldown 5) = count_list (sleeps ?sk) (Cooldown 5)"
    by blast
  have "jm_make_graphql_request net s = ((Some (jb_data body), True), s1)"
    using run dr s1(1) by (simp add: jm_make_graphql_request_def)
  moreover have "requests_made s1 = requests_made s + k + 1"
    using s1(2) rk by simp
  moreover have "jm_failed_requests s1 = jm_failed_requests s"
    using s1(3) jm_fold_throttle_fields(2) [of "take k [0..<?n]" s] by simp
  moreover have "jm_successful_requests s1 = Suc (jm_successful_requests s)"
    using s1(4) jm_fold_throttle_fields(3) [of "take k [0..<?n]" s] by simp
  moreover have "count_list (sleeps s1) (Cooldown 5) = count_list (sleeps s) (Cooldown 5) + k"
    using s1(5) jm_fold_throttle_fields(5) [of "take k [0..<?n]" s] tk by simp
  ultimately show ?thesis by blast
qed

lemma jm_request_all_throttled:
  assumes thr: "\<forall>i<jm_max_retries s. throttled (net (requests_made s + i))"
  shows "\<exists>s'. jm_make_graphql_request net s = ((None, False), s')
            \<and> requests_made s' = requests_made s + jm_max_retries s
            \<and> jm_failed_requests s' = Suc (jm_failed_requests s)
            \<and> jm_successful_requests s' = jm_successful_requests s"
proof -
  let ?n = "jm_max_retries s"
  let ?sn = "fold jm_after_throttle [0..<?n] s"
  have "jm_attempts net [0..<?n] s
          = jm_attempts net (drop ?n [0..<?n]) (fold jm_after_throttle (take ?n [0..<?n]) s)"
    by (rule jm_attempts_throttled_run) (use thr in simp_all)
  then have "jm_make_graphql_request net s
               = ((None, False), ?sn\<lparr>jm_failed_requests := Suc (jm_failed_requests ?sn)\<rparr>)"
    by (simp add: jm_make_graphql_request_def)
  moreover have "requests_made (?sn\<lparr>jm_failed_requests := Suc (jm_failed_requests ?sn)\<rparr>)
                   = requests_made s + ?n"
    using jm_fold_throttle_fields(1) [of "[0..<?n]" s] by simp
  moreover have "jm_failed_requests (?sn\<lparr>jm_failed_requests := Suc (jm_failed_requests ?sn)\<rparr>)
                   = Suc (jm_failed_requests s)"
    using jm_fold_throttle_fields(2) [of "[0..<?n]" s] by simp
  moreover have "jm_successful_requests (?sn\<lparr>jm_failed_requests := Suc (jm_failed_requests ?sn)\<rparr>)
                   = jm_successful_requests s"
    using jm_fold_throttle_fields(3) [of "[0..<?n]" s] by simp
  ultimately show ?thesis by blast
qed

lemma jm_request_other_status:
  assumes "0 < jm_max_retries s" "net (requests_made s) = Response code b0"
    "code \<noteq> 200" "code \<noteq> 429"
  shows "\<exists>s'. jm_make_graphql_request net s = ((None, False), s')
            \<and> requests_made s' = Suc (requests_made s)
            \<and> jm_failed_requests s' = jm_failed_requests s"
proof -
  have "[0..<jm_max_retries s] = 0 # [Suc 0..<jm_max_retries s]"
    using assms(1) by (simp add: upt_conv_Cons)
  with jm_attempts_other_status
         [where net = net and s = s and a = 0 and as = "[Suc 0..<jm_max_retries s]",
          OF assms(2,3,4)]
  show ?thesis by (simp add: jm_make_graphql_request_def)
qed

lemma ah_request_bound:
  "requests_made (snd (ah_make_request_with_retry net s)) \<le> requests_made s + ah_max_retries s"
  using ah_attempts_bound [of net "[0..<ah_max_retries s]" s]
  by (simp add: ah_make_request_with_retry_def)

lemma ah_request_failing_then_success:
  assumes "k < ah_max_retries s" "\<forall>i<k. ah_failing (net (requests_made s + i))"
    "net (requests_made s + k) = Response 200 (Some data)"
  shows "\<exists>s'. ah_make_request_with_retry net s = (Inr (Some data), s')
            \<and> requests_made s' = requests_made s + k + 1"
  using ah_attempts_failing_then_success [of s "ah_max_retries s" 0 k net data] assms
  by (simp add: ah_make_request_with_retry_def)

lemma ah_request_all_failing:
  assumes "0 < ah_max_retries s" "\<forall>i<ah_max_retries s. ah_failing (net (requests_made s + i))"
  shows "\<exists>e s'. ah_make_request_with_retry net s = (Inl e, s')
            \<and> requests_made s' = requests_made s + ah_max_retries s
            \<and> (throttled (net (requests_made s + (ah_max_retries s - 1)))
                 \<longrightarrow> e = ClientError [Txt ''Rate limited''])"
  using ah_attempts_all_failing [of s "ah_max_retries s" 0 "ah_max_retries s" net] assms
  by (simp add: ah_make_request_with_retry_def)

lemma throttled_answers_none: "throttled_answers net m m = 0"
  by (simp add: throttled_answers_def)

lemma throttled_answers_step:
  "m < n \<Longrightarrow>
   throttled_answers net m n
     = (if throttled (net m) then 1 else 0) + throttled_answers net (Suc m) n"
  by (simp add: throttled_answers_def upt_conv_Cons)

lemma throttled_answers_one:
  "throttled_answers net m (Suc m) = (if throttled (net m) then 1 else 0)"
  by (simp add: throttled_answers_def)

lemma throttled_answers_all:
  "(\<forall>i<k. throttled (net (m + i))) \<Longrightarrow> throttled_answers net m (m + k) = k"
proof (induction k arbitrary: m)
  case 0
  then show ?case by (simp add: throttled_answers_def)
next
  case (Suc k)
  from Suc.prems have first: "throttled (net m)" by force
  have "\<forall>i<k. throttled (net (Suc m + i))"
  proof (intro allI impI)
    fix i assume "i < k"
    then have "Suc i < Suc k" by simp
    with Suc.prems have "throttled (net (m + Suc i))" by blast
    then show "throttled (net (Suc m + i))" by simp
  qed
  from Suc.IH [OF this] have "throttled_answers net (Suc m) (Suc m + k) = k" .
  moreover have "throttled_answers net m (m + Suc k)
                   = (if throttled (net m) then 1 else 0) + throttled_answers net (Suc m) (m + Suc k)"
    by (rule throttled_answers_step) simp
  ultimately show ?case using first by simp
qed

lemma jm_attempts_cooldowns:
  "requests_made s \<le> requests_made (snd (jm_attempts net as s))
   \<and> count_list (sleeps (snd (jm_attempts net as s))) (Cooldown 5)
       = count_list (sleeps s) (Cooldown 5)
         + throttled_answers net (requests_made s) (requests_made (snd (jm_attempts net as s)))"
proof (induction as arbitrary: s)
  case Nil
  then show ?case by (simp add: throttled_answers_none)
next
  case (Cons a as)
  let ?s1 = "if a > 0 then sleep_for (Backoff a) s else s"
  have r1: "requests_made ?s1 = requests_made s"
    by (simp add: sleep_for_def)
  have c1: "count_list (sleeps ?s1) (Cooldown 5) = count_list (sleeps s) (Cooldown 5)"
    by (simp add: sleep_for_def)
  obtain resp s2 where sd: "send net ?s1 = (resp, s2)" by (cases "send net ?s1")
  then have r2: "requests_made s2 = Suc (requests_made s)"
    and c2: "count_list (sleeps s2) (Cooldown 5) = count_list (sleeps s) (Cooldown 5)"
    and rs: "net (requests_made s) = resp"
    using r1 c1 by (auto simp: send_def)
  show ?case
  proof (cases resp)
    case (Raises e)
    let ?s3 = "log WARNING [Txt ''Request error on attempt '', Num (int a + 1)] s2"
    have nt: "\<not> throttled (net (requests_made s))"
      using rs Raises by (simp add: throttled_def)
    have f3: "requests_made ?s3 = Suc (requests_made s)"
        "count_list (sleeps ?s3) (Cooldown 5) = count_list (sleeps s) (Cooldown 5)"
      using r2 c2 by (simp_all add: log_def)
    have res: "jm_attempts net (a # as) s = jm_attempts net as ?s3"
      using sd Raises by (simp add: Let_def)
    from Cons.IH [of ?s3] f3
    have le: "Suc (requests_made s) \<le> requests_made (snd (jm_attempts net as ?s3))"
      and cnt: "count_list (sleeps (snd (jm_attempts net as ?s3))) (Cooldown 5)
                 = count_list (sleeps s) (Cooldown 5)
                   + throttled_answers net (Suc (requests_made s))
                       (requests_made (snd (jm_attempts net as ?s3)))"
      by simp_all
    from le have lt: "requests_made s < requests_made (snd (jm_attempts net as ?s3))" by simp
    from throttled_answers_step [OF lt, of net] nt cnt le res
    show ?thesis by simp
  next
    case (Response code body)
    show ?thesis
    proof (cases "code = 200")
      case True
      then have nt: "\<not> throttled (net (requests_made s))"
        using rs Response by (simp add: throttled_def)
      then show ?thesis
        using sd Response True r2 c2
        by (cases body) (simp_all add: Let_def log_def throttled_answers_one)
    next
      case False
      show ?thesis
      proof (cases "code = 429")
        case True
        let ?s3 = "sleep_for (Cooldown 5)
                    ((log WARNING [Txt ''Rate limited on attempt '', Num (int a + 1),
                                   Txt '', increasing delay''] s2)
                       \<lparr>jm_base_delay := min (jm_base_delay s2 * (3 / 2)) 2\<rparr>)"
        have th: "throttled (net (requests_made s))"
          using rs Response True by (simp add: throttled_def)
        have f3: "requests_made ?s3 = Suc (requests_made s)"
            "count_list (sleeps ?s3) (Cooldown 5) = Suc (count_list (sleeps s) (Cooldown 5))"
          using r2 c2 by (simp_all add: log_def sleep_for_def)
        have res: "jm_attempts net (a # as) s = jm_attempts net as ?s3"
          using sd Response True by (simp add: Let_def)
        from Cons.IH [of ?s3] f3
        have le: "Suc (requests_made s) \<le> requests_made (snd (jm_attempts net as ?s3))"
          and cnt: "count_list (sleeps (snd (jm_attempts net as ?s3))) (Cooldown 5)
                 = Suc (count_list (sleeps s) (Cooldown 5))
                   + throttled_answers net (Suc (requests_made s))
                       (requests_made (snd (jm_attempts net as ?s3)))"
          by simp_all
        from le have lt: "requests_made s < requests_made (snd (jm_attempts net as ?s3))" by simp
        from throttled_answers_step [OF lt, of net] th cnt le res
        show ?thesis by simp
      next
        case not429: False
        have nt: "\<not> throttled (net (requests_made s))"
          using rs Response not429 by (simp add: throttled_def)
        then show ?thesis
          using sd Response False not429 r2 c2
          by (simp add: Let_def log_def throttled_answers_one)
      qed
    qed
  qed
qed

lemma ah_attempt_cooldown:
  "count_list (sleeps (snd (ah_attempt net a s))) (Cooldown 5)
     = count_list (sleeps s) (Cooldown 5) + (if throttled (net (requests_made s)) then 1 else 0)"
  by (cases "net (requests_made s)")
     (auto simp: ah_attempt_def throttled_def send_def sleep_for_def log_def Let_def
                 ah_handle_response_def
           split: py_exn.splits option.splits)

lemma ah_attempts_cooldowns:
  "requests_made s \<le> requests_made (snd (ah_attempts net as s))
   \<and> count_list (sleeps (snd (ah_attempts net as s))) (Cooldown 5)
       = count_list (sleeps s) (Cooldown 5)
         + throttled_answers net (requests_made s) (requests_made (snd (ah_attempts net as s)))"
proof (induction as arbitrary: s)
  case Nil
  then show ?case by (simp add: throttled_answers_none)
next
  case (Cons a as)
  obtain r s4 where att: "ah_attempt net a s = (r, s4)" by (cases "ah_attempt net a s")
  then have rm: "requests_made s4 = Suc (requests_made s)"
    using ah_attempt_fields(1) [of net a s] by simp
  have cd: "count_list (sleeps s4) (Cooldown 5)
     = count_list (sleeps s) (Cooldown 5) + (if throttled (net (requests_made s)) then 1 else 0)"
    using ah_attempt_cooldown [of net a s] att by simp
  show ?case
  proof (cases "ah_attempts net (a # as) s = (r, s4)")
    case True
    with rm cd show ?thesis by (simp add: throttled_answers_one)
  next
    case False
    with att have res: "ah_attempts net (a # as) s = ah_attempts net as s4"
      by (cases r) (simp_all split: if_splits)
    from Cons.IH [of s4] rm
    have le: "Suc (requests_made s) \<le> requests_made (snd (ah_attempts net as s4))"
      and cnt: "count_list (sleeps (snd (ah_attempts net as s4))) (Cooldown 5)
                 = count_list (sleeps s4) (Cooldown 5)
                   + throttled_answers net (Suc (requests_made s))
                       (requests_made (snd (ah_attempts net as s4)))"
      by simp_all
    from le have lt: "requests_made s < requests_made (snd (ah_attempts net as s4))" by simp
    from throttled_answers_step [OF lt, of net] cd cnt le res
    show ?thesis by simp
  qed
qed

lemma jm_request_cooldowns:
  "count_list (sleeps (snd (jm_make_graphql_request net s))) (Cooldown 5)
     = count_list (sleeps s) (Cooldown 5)
       + throttled_answers net (requests_made s)
           (requests_made (snd (jm_make_graphql_request net s)))"
  using jm_attempts_cooldowns [of s net "[0..<jm_max_retries s]"]
  by (simp add: jm_make_graphql_request_def)

lemma ah_request_cooldowns:
  "count_list (sleeps (snd (ah_make_request_with_retry net s))) (Cooldown 5)
     = count_list (sleeps s) (Cooldown 5)
       + throttled_answers net (requests_made s)
           (requests_made (snd (ah_make_request_with_retry net s)))"
  using ah_attempts_cooldowns [of s net "[0..<ah_max_retries s]"]
  by (simp add: ah_make_request_with_retry_def)
lemma throttled_answers_last:
  "m \<le> n \<Longrightarrow>
   throttled_answers net m (Suc n)
     = throttled_answers net m n + (if throttled (net n) then 1 else 0)"
  by (simp add: throttled_answers_def)

lemma jm_request_all_throttled_cooldowns:
  assumes thr: "\<forall>i<jm_max_retries s. throttled (net (requests_made s + i))"
  shows "count_list (sleeps (snd (jm_make_graphql_request net s))) (Cooldown 5)
           = count_list (sleeps s) (Cooldown 5) + jm_max_retries s"
proof -
  from jm_request_all_throttled [OF thr]
  have "requests_made (snd (jm_make_graphql_request net s)) = requests_made s + jm_max_retries s"
    by auto
  with jm_request_cooldowns [of net s] throttled_answers_all [OF thr]
  show ?thesis by simp
qed

lemma jm_request_other_status_no_wait:
  assumes "0 < jm_max_retries s" "net (requests_made s) = Response code b0"
    "code \<noteq> 200" "code \<noteq> 429"
  shows "sleeps (snd (jm_make_graphql_request net s)) = sleeps s"
proof -
  have "[0..<jm_max_retries s] = 0 # [Suc 0..<jm_max_retries s]"
    using assms(1) by (simp add: upt_conv_Cons)
  then show ?thesis
    using assms(2,3,4)
    by (simp add: jm_make_graphql_request_def send_def log_def Let_def)
qed

lemma ah_request_failing_then_success_cooldowns:
  assumes "k < ah_max_retries s" "\<forall>i<k. ah_failing (net (requests_made s + i))"
    "net (requests_made s + k) = Response 200 (Some data)"
  shows "count_list (sleeps (snd (ah_make_request_with_retry net s))) (Cooldown 5)
           = count_list (sleeps s) (Cooldown 5)
             + throttled_answers net (requests_made s) (requests_made s + k)"
proof -
  from ah_request_failing_then_success [OF assms]
  have rm: "requests_made (snd (ah_make_request_with_retry net s)) = Suc (requests_made s + k)"
    by auto
  have "\<not> throttled (net (requests_made s + k))"
    using assms(3) by (simp add: throttled_def)
  then have "throttled_answers net (requests_made s) (Suc (requests_made s + k))
               = throttled_answers net (requests_made s) (requests_made s + k)"
    by (simp add: throttled_answers_last)
  with ah_request_cooldowns [of net s] rm show ?thesis by simp
qed

lemma ah_request_all_failing_cooldowns:
  assumes "0 < ah_max_retries s" "\<forall>i<ah_max_retries s. ah_failing (net (requests_made s + i))"
  shows "count_list (sleeps (snd (ah_make_request_with_retry net s))) (Cooldown 5)
           = count_list (sleeps s) (Cooldown 5)
             + throttled_answers net (requests_made s) (requests_made s + ah_max_retries s)"
proof -
  from ah_request_all_failing [OF assms]
  have "requests_made (snd (ah_make_request_with_retry net s))
          = requests_made s + ah_max_retries s"
    by auto
  with ah_request_cooldowns [of net s] show ?thesis by simp
qed

text \<open>
  C4 (as the code has it), for the request executions of the Jumbo scraper
  (\<open>make_graphql_request\<close>) and of the AH scraper (\<open>make_request_with_retry\<close>). In
  both, whatever the server answers, an execution sends at most \<open>max_retries\<close>
  requests and waits one 5 second cooldown for each 429 answer it receives, no more and
  no fewer. A 429 answer is retried while attempts remain, but every throttled attempt
  uses up one of the \<open>max_retries\<close> attempts. In the Jumbo scraper:
  \<open>k < max_retries\<close> throttled attempts followed by a good answer succeed after \<open>k\<close>
  cooldowns and leave the failed-request counter unchanged; \<open>max_retries\<close> throttled
  attempts in a row end the execution, after as many cooldowns, as one failed request;
  any other status than 200 and 429 ends it at once, without retry and without a wait.
  In the AH scraper a 429 is retried like every other failed attempt: \<open>k < max_retries\<close>
  failed attempts followed by a good answer succeed, and \<open>max_retries\<close> failed attempts
  make the execution raise (\<open>Rate limited\<close> when the last one was throttled); in both
  cases there is one cooldown for each of the failed attempts that was a 429.
\<close>

theorem throttling_uses_up_attempts:
  "requests_made (snd (jm_make_graphql_request net s)) \<le> requests_made s + jm_max_retries s
   \<and> count_list (sleeps (snd (jm_make_graphql_request net s))) (Cooldown 5)
       = count_list (sleeps s) (Cooldown 5)
         + throttled_answers net (requests_made s)
             (requests_made (snd (jm_make_graphql_request net s)))
   \<and> (k < jm_max_retries s \<longrightarrow> (\<forall>i<k. throttled (net (requests_made s + i))) \<longrightarrow>
        net (requests_made s + k) = Response 200 (Some body) \<longrightarrow>
        jb_has_data body \<longrightarrow> \<not> jb_errors body \<longrightarrow>
        (\<exists>s'. jm_make_graphql_request net s = ((Some (jb_data body), True), s')
            \<and> requests_made s' = requests_made s + k + 1
            \<and> jm_failed_requests s' = jm_failed_requests s
            \<and> jm_successful_requests s' = Suc (jm_successful_requests s)
            \<and> count_list (sleeps s') (Cooldown 5) = count_list (sleeps s) (Cooldown 5) + k))
   \<and> ((\<forall>i<jm_max_retries s. throttled (net (requests_made s + i))) \<longrightarrow>
        (\<exists>s'. jm_make_graphql_request net s = ((None, False), s')
            \<and> requests_made s' = requests_made s + jm_max_retries s
            \<and> jm_failed_requests s' = Suc (jm_failed_requests s)
            \<and> jm_successful_requests s' = jm_successful_requests s
            \<and> count_list (sleeps s') (Cooldown 5)
                = count_list (sleeps s) (Cooldown 5) + jm_max_retries s))
   \<and> (0 < jm_max_retries s \<longrightarrow> net (requests_made s) = Response code otherbody \<longrightarrow>
        code \<noteq> 200 \<longrightarrow> code \<noteq> 429 \<longrightarrow>
        (\<exists>s'. jm_make_graphql_request net s = ((None, False), s')
            \<and> requests_made s' = Suc (requests_made s)
            \<and> jm_failed_requests s' = jm_failed_requests s
            \<and> sleeps s' = sleeps s))
   \<and> requests_made (snd (ah_make_request_with_retry net_a a)) \<le> requests_made a + ah_max_retries a
   \<and> count_list (sleeps (snd (ah_make_request_with_retry net_a a))) (Cooldown 5)
       = count_list (sleeps a) (Cooldown 5)
         + throttled_answers net_a (requests_made a)
             (requests_made (snd (ah_make_request_with_retry net_a a)))
   \<and> (k_a < ah_max_retries a \<longrightarrow> (\<forall>i<k_a. ah_failing (net_a (requests_made a + i))) \<longrightarrow>
        net_a (requests_made a + k_a) = Response 200 (Some data) \<longrightarrow>
        (\<exists>a'. ah_make_request_with_retry net_a a = (Inr (Some data), a')
            \<and> requests_made a' = requests_made a + k_a + 1
            \<and> count_list (sleeps a') (Cooldown 5)
                = count_list (sleeps a) (Cooldown 5)
                  + throttled_answers net_a (requests_made a) (requests_made a + k_a)))
   \<and> (0 < ah_max_retries a \<longrightarrow> (\<forall>i<ah_max_retries a. ah_failing (net_a (requests_made a + i))) \<longrightarrow>
        (\<exists>e a'. ah_make_request_with_retry net_a a = (Inl e, a')
            \<and> requests_made a' = requests_made a + ah_max_retries a
            \<and> count_list (sleeps a') (Cooldown 5)
                = count_list (sleeps a) (Cooldown 5)
                  + throttled_answers net_a (requests_made a)
                      (requests_made a + ah_max_retries a)
            \<and> (throttled (net_a (requests_made a + (ah_max_retries a - 1)))
                 \<longrightarrow> e = ClientError [Txt ''Rate limited''])))"
proof -
  have j0: "requests_made (snd (jm_make_graphql_request net s))
              \<le> requests_made s + jm_max_retries s"
    by (rule jm_request_bound)
  have j1: "count_list (sleeps (snd (jm_make_graphql_request net s))) (Cooldown 5)
       = count_list (sleeps s) (Cooldown 5)
         + throttled_answers net (requests_made s)
             (requests_made (snd (jm_make_graphql_request net s)))"
    by (rule jm_request_cooldowns)
  have j2: "k < jm_max_retries s \<longrightarrow> (\<forall>i<k. throttled (net (requests_made s + i))) \<longrightarrow>
        net (requests_made s + k) = Response 200 (Some body) \<longrightarrow>
        jb_has_data body \<longrightarrow> \<not> jb_errors body \<longrightarrow>
        (\<exists>s'. jm_make_graphql_request net s = ((Some (jb_data body), True), s')
            \<and> requests_made s' = requests_made s + k + 1
            \<and> jm_failed_requests s' = jm_failed_requests s
            \<and> jm_successful_requests s' = Suc (jm_successful_requests s)
            \<and> count_list (sleeps s') (Cooldown 5) = count_list (sleeps s) (Cooldown 5) + k)"
    using jm_request_throttled_then_success [of k s net body] by (intro impI) assumption
  have j3: "(\<forall>i<jm_max_retries s. throttled (net (requests_made s + i))) \<longrightarrow>
        (\<exists>s'. jm_make_graphql_request net s = ((None, False), s')
            \<and> requests_made s' = requests_made s + jm_max_retries s
            \<and> jm_failed_requests s' = Suc (jm_failed_requests s)
            \<and> jm_successful_requests s' = jm_successful_requests s
            \<and> count_list (sleeps s') (Cooldown 5)
                = count_list (sleeps s) (Cooldown 5) + jm_max_retries s)"
  proof
    assume thr: "\<forall>i<jm_max_retries s. throttled (net (requests_made s + i))"
    from jm_request_all_throttled [where net = net and s = s, OF thr]
         jm_request_all_throttled_cooldowns [where net = net and s = s, OF thr]
    show "\<exists>s'. jm_make_graphql_request net s = ((None, False), s')
            \<and> requests_made s' = requests_made s + jm_max_retries s
            \<and> jm_failed_requests s' = Suc (jm_failed_requests s)
            \<and> jm_successful_requests s' = jm_successful_requests s
            \<and> count_list (sleeps s') (Cooldown 5)
                = count_list (sleeps s) (Cooldown 5) + jm_max_retries s"
      by auto
  qed
  have j4: "0 < jm_max_retries s \<longrightarrow> net (requests_made s) = Response code otherbody \<longrightarrow>
        code \<noteq> 200 \<longrightarrow> code \<noteq> 429 \<longrightarrow>
        (\<exists>s'. jm_make_graphql_request net s = ((None, False), s')
            \<and> requests_made s' = Suc (requests_made s)
            \<and> jm_failed_requests s' = jm_failed_requests s
            \<and> sleeps s' = sleeps s)"
  proof (intro impI)
    assume h: "0 < jm_max_retries s" "net (requests_made s) = Response code otherbody"
      "code \<noteq> 200" "code \<noteq> 429"
    from jm_request_other_status [where net = net and s = s, OF h]
         jm_request_other_status_no_wait [where net = net and s = s, OF h]
    show "\<exists>s'. jm_make_graphql_request net s = ((None, False), s')
            \<and> requests_made s' = Suc (requests_made s)
            \<and> jm_failed_requests s' = jm_failed_requests s
            \<and> sleeps s' = sleeps s"
      by auto
  qed
  have a0: "requests_made (snd (ah_make_request_with_retry net_a a))
              \<le> requests_made a + ah_max_retries a"
    by (rule ah_request_bound)
  have a1: "count_list (sleeps (snd (ah_make_request_with_retry net_a a))) (Cooldown 5)
       = count_list (sleeps a) (Cooldown 5)
         + throttled_answers net_a (requests_made a)
             (requests_made (snd (ah_make_request_with_retry net_a a)))"
    by (rule ah_request_cooldowns)
  have a2: "k_a < ah_max_retries a \<longrightarrow> (\<forall>i<k_a. ah_failing (net_a (requests_made a + i))) \<longrightarrow>
        net_a (requests_made a + k_a) = Response 200 (Some data) \<longrightarrow>
        (\<exists>a'. ah_make_request_with_retry net_a a = (Inr (Some data), a')
            \<and> requests_made a' = requests_made a + k_a + 1
            \<and> count_list (sleeps a') (Cooldown 5)
                = count_list (sleeps a) (Cooldown 5)
                  + throttled_answers net_a (requests_made a) (requests_made a + k_a))"
  proof (intro impI)
    assume h: "k_a < ah_max_retries a" "\<forall>i<k_a. ah_failing (net_a (requests_made a + i))"
      "net_a (requests_made a + k_a) = Response 200 (Some data)"
    from ah_request_failing_then_success [where net = net_a and s = a, OF h]
         ah_request_failing_then_success_cooldowns [where net = net_a and s = a, OF h]
    show "\<exists>a'. ah_make_request_with_retry net_a a = (Inr (Some data), a')
            \<and> requests_made a' = requests_made a + k_a + 1
            \<and> count_list (sleeps a') (Cooldown 5)
                = count_list (sleeps a) (Cooldown 5)
                  + throttled_answers net_a (requests_made a) (requests_made a + k_a)"
      by auto
  qed
  have a3: "0 < ah_max_retries a \<longrightarrow> (\<forall>i<ah_max_retries a. ah_failing (net_a (requests_made a + i))) \<longrightarrow>
        (\<exists>e a'. ah_make_request_with_retry net_a a = (Inl e, a')
            \<and> requests_made a' = requests_made a + ah_max_retries a
            \<and> count_list (sleeps a') (Cooldown 5)
                = count_list (sleeps a) (Cooldown 5)
                  + throttled_answers net_a (requests_made a)
                      (requests_made a + ah_max_retries a)
            \<and> (throttled (net_a (requests_made a + (ah_max_retries a - 1)))
                 \<longrightarrow> e = ClientError [Txt ''Rate limited'']))"
  proof (intro impI)
    assume h: "0 < ah_max_retries a" "\<forall>i<ah_max_retries a. ah_failing (net_a (requests_made a + i))"
    from ah_request_all_failing [where net = net_a and s = a, OF h]
         ah_request_all_failing_cooldowns [where net = net_a and s = a, OF h]
    show "\<exists>e a'. ah_make_request_with_retry net_a a = (Inl e, a')
            \<and> requests_made a' = requests_made a + ah_max_retries a
            \<and> count_list (sleeps a') (Cooldown 5)
                = count_list (sleeps a) (Cooldown 5)
                  + throttled_answers net_a (requests_made a)
                      (requests_made a + ah_max_retries a)
            \<and> (throttled (net_a (requests_made a + (ah_max_retries a - 1)))
                 \<longrightarrow> e = ClientError [Txt ''Rate limited''])"
      by auto
  qed
  from j0 j1 j2 j3 j4 a0 a1 a2 a3 show ?thesis by (intro conjI)
qed

theorem throttling_uses_up_attempts_witness:
  "(\<exists>s'. jm_make_graphql_request (jm_throttle_first 1 [jm_item 1]) jm_blank
            = ((Some (Search_products [jm_item 1] []), True), s')
        \<and> requests_made s' = 2
        \<and> jm_failed_requests s' = 0
        \<and> jm_successful_requests s' = 1
        \<and> count_list (sleeps s') (Cooldown 5) = 1)
   \<and> (\<exists>s'. jm_make_graphql_request (jm_throttle_first 3 [jm_item 1]) jm_blank = ((None, False), s')
        \<and> requests_made s' = 3
        \<and> jm_failed_requests s' = 1
        \<and> count_list (sleeps s') (Cooldown 5) = 3)
   \<and> (\<exists>s'. jm_make_graphql_request (\<lambda>k. Response 404 None) jm_blank = ((None, False), s')
        \<and> requests_made s' = 1
        \<and> jm_failed_requests s' = 0
        \<and> sleeps s' = [])
   \<and> (\<exists>a'. ah_make_request_with_retry (ah_throttle_first 2 [ah_item 1]) ah_blank
            = (Inr (Some (Search_json [ah_item 1])), a')
        \<and> requests_made a' = 3
        \<and> count_list (sleeps a') (Cooldown 5) = 2)
   \<and> (\<exists>a'. ah_make_request_with_retry (ah_throttle_first 3 [ah_item 1]) ah_blank
            = (Inl (ClientError [Txt ''Rate limited'']), a')
        \<and> requests_made a' = 3
        \<and> count_list (sleeps a') (Cooldown 5) = 3)"
proof -
  note defs = jm_throttle_first_def ah_throttle_first_def jm_page_def jm_blank_def ah_blank_def
              throttled_def ah_failing_def throttled_answers_def
  have 1: "\<exists>s'. jm_make_graphql_request (jm_throttle_first 1 [jm_item 1]) jm_blank
            = ((Some (Search_products [jm_item 1] []), True), s')
        \<and> requests_made s' = 2
        \<and> jm_failed_requests s' = 0
        \<and> jm_successful_requests s' = 1
        \<and> count_list (sleeps s') (Cooldown 5) = 1"
    using throttling_uses_up_attempts
          [where net = "jm_throttle_first 1 [jm_item 1]" and s = jm_blank and k = 1
             and body = "\<lparr>jb_has_data = True, jb_data = Search_products [jm_item 1] [],
                          jb_errors = False\<rparr>" and code = 404 and otherbody = None
             and net_a = "ah_throttle_first 2 [ah_item 1]" and a = ah_blank and k_a = 2
             and data = "Search_json [ah_item 1]",
           THEN conjunct2, THEN conjunct2, THEN conjunct1]
    by (auto simp: defs)
  have 2: "\<exists>s'. jm_make_graphql_request (jm_throttle_first 3 [jm_item 1]) jm_blank = ((None, False), s')
        \<and> requests_made s' = 3
        \<and> jm_failed_requests s' = 1
        \<and> count_list (sleeps s') (Cooldown 5) = 3"
    using throttling_uses_up_attempts
          [where net = "jm_throttle_first 3 [jm_item 1]" and s = jm_blank and k = 1
             and body = "\<lparr>jb_has_data = True, jb_data = Search_products [jm_item 1] [],
                          jb_errors = False\<rparr>" and code = 404 and otherbody = None
             and net_a = "ah_throttle_first 2 [ah_item 1]" and a = ah_blank and k_a = 2
             and data = "Search_json [ah_item 1]",
           THEN conjunct2, THEN conjunct2, THEN conjunct2, THEN conjunct1]
    by (auto simp: defs)
  have 3: "\<exists>s'. jm_make_graphql_request (\<lambda>k. Response 404 None) jm_blank = ((None, False), s')
        \<and> requests_made s' = 1
        \<and> jm_failed_requests s' = 0
        \<and> sleeps s' = []"
    using throttling_uses_up_attempts
          [where net = "\<lambda>k. Response 404 None" and s = jm_blank and k = 1
             and body = "\<lparr>jb_has_data = True, jb_data = Search_products [jm_item 1] [],
                          jb_errors = False\<rparr>" and code = 404 and otherbody = None
             and net_a = "ah_throttle_first 2 [ah_item 1]" and a = ah_blank and k_a = 2
             and data = "Search_json [ah_item 1]",
           THEN conjunct2, THEN conjunct2, THEN conjunct2, THEN conjunct2, THEN conjunct1]
    by (auto simp: defs)
  have 4: "\<exists>a'. ah_make_request_with_retry (ah_throttle_first 2 [ah_item 1]) ah_blank
            = (Inr (Some (Search_json [ah_item 1])), a')
        \<and> requests_made a' = 3
        \<and> count_list (sleeps a') (Cooldown 5) = 2"
    using throttling_uses_up_attempts
          [where net = "jm_throttle_first 1 [jm_item 1]" and s = jm_blank and k = 1
             and body = "\<lparr>jb_has_data = True, jb_data = Search_products [jm_item 1] [],
                          jb_errors = False\<rparr>" and code = 404 and otherbody = None
             and net_a = "ah_throttle_first 2 [ah_item 1]" and a = ah_blank and k_a = 2
             and data = "Search_json [ah_item 1]",
           THEN conjunct2, THEN conjunct2, THEN conjunct2, THEN conjunct2, THEN conjunct2,
           THEN conjunct2, THEN conjunct2, THEN conjunct1]
    by (auto simp: defs upt_conv_Cons)
  have 5: "\<exists>a'. ah_make_request_with_retry (ah_throttle_first 3 [ah_item 1]) ah_blank
            = (Inl (ClientError [Txt ''Rate limited'']), a')
        \<and> requests_made a' = 3
        \<and> count_list (sleeps a') (Cooldown 5) = 3"
    using throttling_uses_up_attempts
          [where net = "jm_throttle_first 1 [jm_item 1]" and s = jm_blank and k = 1
             and body = "\<lparr>jb_has_data = True, jb_data = Search_products [jm_item 1] [],
                          jb_errors = False\<rparr>" and code = 404 and otherbody = None
             and net_a = "ah_throttle_first 3 [ah_item 1]" and a = ah_blank and k_a = 2
             and data = "Search_json [ah_item 1]",
           THEN conjunct2, THEN conjunct2, THEN conjunct2, THEN conjunct2, THEN conjunct2,
           THEN conjunct2, THEN conjunct2, THEN conjunct2]
    by (auto simp: defs upt_conv_Cons)
  from 1 2 3 4 5 show ?thesis by blast
qed

text \<open>
  The claim as written fails: three throttling answers in a row exhaust the three
  attempts of a Jumbo request, which gives up and counts one failed request, although
  the server would have answered the next attempt.
\<close>

theorem throttling_exhausts_retries_counterexample:
  "fst (jm_make_graphql_request (jm_throttle_first 3 [jm_item 1]) jm_blank) = (None, False)
   \<and> jm_failed_requests (snd (jm_make_graphql_request (jm_throttle_first 3 [jm_item 1]) jm_blank)) = 1
   \<and> requests_made (snd (jm_make_graphql_request (jm_throttle_first 3 [jm_item 1]) jm_blank)) = 3
   \<and> jm_throttle_first 3 [jm_item 1] 3 = jm_page [jm_item 1]"
  by (simp add: jm_make_graphql_request_def jm_throttle_first_def jm_blank_def send_def
                sleep_for_def log_def Let_def upt_conv_Cons)

section \<open>The offset of the Jumbo loop\<close>

lemma jm_attempts_frame: "jm_request_frame s (snd (jm_attempts net as s))"
proof (induction as arbitrary: s)
  case Nil
  then show ?case by (simp add: jm_request_frame_def)
next
  case (Cons a as)
  let ?s1 = "if a > 0 then sleep_for (Backoff a) s else s"
  obtain resp s2 where sd: "send net ?s1 = (resp, s2)" by (cases "send net ?s1")
  then have f2: "jm_request_frame s s2"
    by (cases "a > 0") (auto simp: send_def sleep_for_def jm_request_frame_def)
  show ?case
  proof (cases resp)
    case (Raises e)
    let ?s3 = "log WARNING [Txt ''Request error on attempt '', Num (int a + 1)] s2"
    have "jm_request_frame ?s3 (snd (jm_attempts net as ?s3))" by (rule Cons.IH)
    moreover have "jm_request_frame s ?s3"
      using f2 by (simp add: jm_request_frame_def log_def)
    ultimately have "jm_request_frame s (snd (jm_attempts net as ?s3))"
      by (simp add: jm_request_frame_def)
    then show ?thesis
      using sd Raises by (simp add: Let_def)
  next
    case (Response code body)
    show ?thesis
    proof (cases "code = 200")
      case True
      then show ?thesis
        using sd Response f2
        by (cases body) (simp_all add: Let_def log_def jm_request_frame_def)
    next
      case False
      show ?thesis
      proof (cases "code = 429")
        case True
        let ?s3 = "sleep_for (Cooldown 5)
                    ((log WARNING [Txt ''Rate limited on attempt '', Num (int a + 1),
                                   Txt '', increasing delay''] s2)
                       \<lparr>jm_base_delay := min (jm_base_delay s2 * (3 / 2)) 2\<rparr>)"
        have "jm_request_frame ?s3 (snd (jm_attempts net as ?s3))" by (rule Cons.IH)
        moreover have "jm_request_frame s ?s3"
          using f2 by (simp add: jm_request_frame_def log_def sleep_for_def)
        ultimately have "jm_request_frame s (snd (jm_attempts net as ?s3))"
          by (simp add: jm_request_frame_def)
        then show ?thesis
          using sd Response True by (simp add: Let_def)
      next
        case not429: False
        then show ?thesis
          using sd Response False f2 by (simp add: Let_def log_def jm_request_frame_def)
      qed
    qed
  qed
qed

lemma jm_request_frame: "jm_request_frame s (snd (jm_make_graphql_request net s))"
  by (simp add: jm_make_graphql_request_def jm_attempts_frame)

lemma jm_iteration_offset:
  assumes req: "jm_make_graphql_request net s = ((response_data, success), s1)"
  shows "(jm_iteration net category_name loc s = (Inr (Continue loc'), s') \<longrightarrow>
            lp_offset loc' = lp_offset loc +
              (if success \<and> jm_data_truthy response_data \<and> jm_products_of response_data \<noteq> []
               then int (length (jm_products_of response_data))
               else jm_current_batch_size s))
       \<and> (jm_iteration net category_name loc s = (Inr (Break loc'), s') \<longrightarrow>
            lp_offset loc' = lp_offset loc)"
proof -
  have b1: "jm_current_batch_size s1 = jm_current_batch_size s"
    using jm_request_frame [of s net] req by (simp add: jm_request_frame_def)
  show ?thesis
  proof (cases "\<not> success \<or> \<not> jm_data_truthy response_data")
    case True
    then show ?thesis
      using req b1 by (auto simp: jm_iteration_def Let_def)
  next
    case ok: False
    show ?thesis
    proof (cases "jm_products_of response_data = []")
      case True
      then show ?thesis
        using req b1 ok by (auto simp: jm_iteration_def Let_def)
    next
      case False
      then show ?thesis
        using req ok
        by (auto simp: jm_iteration_def Let_def split: prod.splits sum.splits if_splits)
    qed
  qed
qed

text \<open>
  C6 (as the code has it). A pass through the Jumbo loop that goes on to the next pass
  advances the offset by the number of items the page returned when the fetch succeeded
  with a non-empty page, and by the configured batch size when the fetch failed or the
  page was empty; a pass that leaves the loop (limit reached) does not advance it.
\<close>

theorem offset_advances_by_items_or_batch:
  "(jm_iteration net category_name loc s = (Inr (Continue loc'), s') \<longrightarrow>
      lp_offset loc' = lp_offset loc +
        (if snd (fst (jm_make_graphql_request net s))
            \<and> jm_data_truthy (fst (fst (jm_make_graphql_request net s)))
            \<and> jm_products_of (fst (fst (jm_make_graphql_request net s))) \<noteq> []
         then int (length (jm_products_of (fst (fst (jm_make_graphql_request net s)))))
         else jm_current_batch_size s))
   \<and> (jm_iteration net category_name loc s = (Inr (Break loc'), s') \<longrightarrow>
      lp_offset loc' = lp_offset loc)"
  using jm_iteration_offset
          [of net s "fst (fst (jm_make_graphql_request net s))"
              "snd (fst (jm_make_graphql_request net s))"
              "snd (jm_make_graphql_request net s)" category_name loc loc' s']
  by simp

lemma jm_blank_page_request:
  "fst (jm_make_graphql_request (\<lambda>k. jm_page ps) jm_blank) = (Some (Search_products ps []), True)"
  by (simp add: jm_make_graphql_request_def jm_blank_def jm_page_def send_def Let_def
                upt_conv_Cons)

theorem offset_advances_by_items_or_batch_witness:
  "jm_iteration (\<lambda>k. jm_page [jm_item 1, jm_item 2]) ''BBQ'' jm_loop_start jm_blank
     = (Inr (Continue \<lparr>lp_total_products = 2, lp_offset = 2, lp_consecutive_empty_pages = 0\<rparr>),
        snd (jm_iteration (\<lambda>k. jm_page [jm_item 1, jm_item 2]) ''BBQ'' jm_loop_start jm_blank))
   \<and> lp_offset \<lparr>lp_total_products = 2, lp_offset = 2, lp_consecutive_empty_pages = 0\<rparr>
       = lp_offset jm_loop_start + int (length [jm_item 1, jm_item 2])
   \<and> jm_current_batch_size jm_blank = 100"
proof -
  have ev: "fst (jm_iteration (\<lambda>k. jm_page [jm_item 1, jm_item 2]) ''BBQ'' jm_loop_start jm_blank)
        = Inr (Continue \<lparr>lp_total_products = 2, lp_offset = 2, lp_consecutive_empty_pages = 0\<rparr>)"
    by (simp add: jm_iteration_def jm_make_graphql_request_def jm_blank_def jm_page_def send_def
                  Let_def upt_conv_Cons jm_item_def jm_save_products_def path_exists_def
                  jm_limit_reached_def jm_loop_start_def call_update_progress_def
                  jm_save_progress_def sleep_for_def)
  then have hyp: "jm_iteration (\<lambda>k. jm_page [jm_item 1, jm_item 2]) ''BBQ'' jm_loop_start jm_blank
     = (Inr (Continue \<lparr>lp_total_products = 2, lp_offset = 2, lp_consecutive_empty_pages = 0\<rparr>),
        snd (jm_iteration (\<lambda>k. jm_page [jm_item 1, jm_item 2]) ''BBQ'' jm_loop_start jm_blank))"
    by (simp add: prod_eq_iff)
  from offset_advances_by_items_or_batch
         [where net = "\<lambda>k. jm_page [jm_item 1, jm_item 2]" and category_name = "''BBQ''"
            and loc = jm_loop_start and s = jm_blank
            and loc' = "\<lparr>lp_total_products = 2, lp_offset = 2, lp_consecutive_empty_pages = 0\<rparr>"
            and s' = "snd (jm_iteration (\<lambda>k. jm_page [jm_item 1, jm_item 2]) ''BBQ''
                             jm_loop_start jm_blank)"]
       hyp
  show ?thesis
    by (simp add: jm_blank_page_request jm_loop_start_def jm_blank_def)
qed

text \<open>
  The claim as written fails on an empty page and on a failed fetch: no item is
  returned, and the offset moves on by the batch size of 100.
\<close>

theorem offset_advance_on_empty_page_counterexample:
  "fst (jm_iteration (always (jm_page [])) ''BBQ'' jm_loop_start jm_blank)
     = Inr (Continue \<lparr>lp_total_products = 0, lp_offset = 100, lp_consecutive_empty_pages = 1\<rparr>)
   \<and> fst (jm_iteration (always (Response 500 None)) ''BBQ'' jm_loop_start jm_blank)
     = Inr (Continue \<lparr>lp_total_products = 0, lp_offset = 100, lp_consecutive_empty_pages = 1\<rparr>)
   \<and> int (length ([] :: jm_product_data list)) = 0"
  by (simp add: jm_iteration_def jm_make_graphql_request_def jm_blank_def jm_page_def send_def
                Let_def upt_conv_Cons jm_loop_start_def log_def always_def)

section \<open>Empty pages\<close>

lemma jm_iteration_empty_page:
  assumes mr: "0 < jm_max_retries s" and pg: "net (requests_made s) = jm_page []"
  shows "\<exists>s1. jm_iteration net category_name loc s
                = (Inr (Continue (loc\<lparr>lp_consecutive_empty_pages := Suc (lp_consecutive_empty_pages loc),
                                        lp_offset := lp_offset loc + jm_current_batch_size s\<rparr>)), s1)
             \<and> requests_made s1 = Suc (requests_made s)
             \<and> jm_request_frame s s1"
proof -
  let ?body = "\<lparr>jb_has_data = True, jb_data = Search_products [] [], jb_errors = False\<rparr>"
  have "net (requests_made s + 0) = Response 200 (Some ?body)"
    using pg by (simp add: jm_page_def)
  from jm_request_throttled_then_success [where k = 0 and s = s and net = net, OF mr _ this]
  obtain s' where req: "jm_make_graphql_request net s = ((Some (Search_products [] []), True), s')"
    and rm: "requests_made s' = Suc (requests_made s)"
    by auto
  have fr: "jm_request_frame s s'"
    using jm_request_frame [of s net] req by simp
  then have "jm_current_batch_size s' = jm_current_batch_size s"
    by (simp add: jm_request_frame_def)
  with req rm fr show ?thesis
    by (simp add: jm_iteration_def Let_def)
qed

lemma jm_loop_empty_run:
  "\<not> jm_shutdown_requested s \<Longrightarrow> 0 < jm_max_retries s \<Longrightarrow>
   lp_consecutive_empty_pages loc + m = jm_max_empty_pages \<Longrightarrow>
   (\<forall>i<m. net (requests_made s + i) = jm_page []) \<Longrightarrow> m \<le> fuel \<Longrightarrow>
   \<exists>loc' s'. jm_category_loop net fuel category_name loc s = Some (Inr loc', s')
      \<and> requests_made s' = requests_made s + m
      \<and> lp_consecutive_empty_pages loc' = jm_max_empty_pages"
proof (induction m arbitrary: fuel loc s)
  case 0
  then show ?case by (cases fuel) simp_all
next
  case (Suc m)
  then obtain fuel' where fuel: "fuel = Suc fuel'" and le: "m \<le> fuel'"
    by (cases fuel) auto
  from Suc.prems have cond: "lp_consecutive_empty_pages loc < jm_max_empty_pages" by simp
  from Suc.prems(4) have "net (requests_made s) = jm_page []" by force
  from jm_iteration_empty_page
         [where s = s and net = net and category_name = category_name and loc = loc,
          OF Suc.prems(2) this]
  obtain s1 where it: "jm_iteration net category_name loc s
                = (Inr (Continue (loc\<lparr>lp_consecutive_empty_pages := Suc (lp_consecutive_empty_pages loc),
                                        lp_offset := lp_offset loc + jm_current_batch_size s\<rparr>)), s1)"
    and rm: "requests_made s1 = Suc (requests_made s)"
    and fr: "jm_request_frame s s1"
    by blast
  let ?loc1 = "loc\<lparr>lp_consecutive_empty_pages := Suc (lp_consecutive_empty_pages loc),
                    lp_offset := lp_offset loc + jm_current_batch_size s\<rparr>"
  have sh: "\<not> jm_shutdown_requested s1" and mr: "0 < jm_max_retries s1"
    using fr Suc.prems(1,2) by (simp_all add: jm_request_frame_def)
  have cnt: "lp_consecutive_empty_pages ?loc1 + m = jm_max_empty_pages"
    using Suc.prems(3) by simp
  have later: "\<forall>i<m. net (requests_made s1 + i) = jm_page []"
  proof (intro allI impI)
    fix i assume "i < m"
    then have "Suc i < Suc m" by simp
    with Suc.prems(4) have "net (requests_made s + Suc i) = jm_page []" by blast
    then show "net (requests_made s1 + i) = jm_page []" by (simp add: rm)
  qed
  from Suc.IH [OF sh mr cnt later le]
  obtain loc' s' where "jm_category_loop net fuel' category_name ?loc1 s1 = Some (Inr loc', s')"
    and "requests_made s' = requests_made s1 + m"
    and "lp_consecutive_empty_pages loc' = jm_max_empty_pages"
    by blast
  with it rm fuel cond Suc.prems(1) show ?case by simp
qed

lemma kv_iteration_empty_page:
  "fetch (requests_made s) = kv_empty_page \<Longrightarrow>
   kv_iteration fetch loc s
     = (Continue (loc\<lparr>kl_consecutive_empty_pages := Suc (kl_consecutive_empty_pages loc),
                       kl_page := kl_page loc + 1\<rparr>),
        s\<lparr>requests_made := Suc (requests_made s)\<rparr>)"
  by (simp add: kv_iteration_def kv_try_body_def kv_make_request_with_retry_def kv_empty_page_def
                Let_def)

lemma kv_loop_empty_run:
  "kl_consecutive_empty_pages loc + m = 3 \<Longrightarrow>
   (\<forall>i<m. fetch (requests_made s + i) = kv_empty_page) \<Longrightarrow> m \<le> fuel \<Longrightarrow>
   \<exists>loc' s'. kv_category_loop fetch fuel loc s = Some (loc', s')
      \<and> requests_made s' = requests_made s + m
      \<and> kl_consecutive_empty_pages loc' = 3"
proof (induction m arbitrary: fuel loc s)
  case 0
  then show ?case by (cases fuel) (simp_all add: kv_max_empty_pages_def)
next
  case (Suc m)
  then obtain fuel' where fuel: "fuel = Suc fuel'" and le: "m \<le> fuel'"
    by (cases fuel) auto
  from Suc.prems have cond: "kl_consecutive_empty_pages loc < kv_max_empty_pages"
    by (simp add: kv_max_empty_pages_def)
  from Suc.prems(2) have first: "fetch (requests_made s) = kv_empty_page" by force
  let ?loc1 = "loc\<lparr>kl_consecutive_empty_pages := Suc (kl_consecutive_empty_pages loc),
                    kl_page := kl_page loc + 1\<rparr>"
  let ?s1 = "s\<lparr>requests_made := Suc (requests_made s)\<rparr>"
  have it: "kv_iteration fetch loc s = (Continue ?loc1, ?s1)"
    using first by (rule kv_iteration_empty_page [where fetch = fetch and s = s])
  have cnt: "kl_consecutive_empty_pages ?loc1 + m = 3"
    using Suc.prems(1) by simp
  have later: "\<forall>i<m. fetch (requests_made ?s1 + i) = kv_empty_page"
  proof (intro allI impI)
    fix i assume "i < m"
    then have "Suc i < Suc m" by simp
    with Suc.prems(2) have "fetch (requests_made s + Suc i) = kv_empty_page" by blast
    then show "fetch (requests_made ?s1 + i) = kv_empty_page" by simp
  qed
  from Suc.IH [OF cnt later le]
  obtain loc' s' where "kv_category_loop fetch fuel' ?loc1 ?s1 = Some (loc', s')"
    and "requests_made s' = requests_made ?s1 + m"
    and "kl_consecutive_empty_pages loc' = 3"
    by blast
  with it fuel cond show ?case by simp
qed

lemma pl_iteration_empty_page:
  "\<not> pl_limit_reached s \<Longrightarrow> fst (pages (requests_made s)) = [] \<Longrightarrow>
   pl_iteration pages category_id category_name loc s
     = (Continue (loc\<lparr>pp_consecutive_empty_pages := Suc (pp_consecutive_empty_pages loc),
                       pp_current_page := pp_current_page loc + 1\<rparr>),
        s\<lparr>requests_made := Suc (requests_made s)\<rparr>)"
  by (cases "pages (requests_made s)")
     (simp add: pl_iteration_def pl_try_body_def pl_get_products_ultra_fixed_def Let_def)

lemma pl_loop_empty_run:
  "\<not> pl_shutdown_requested s \<Longrightarrow> \<not> pl_limit_reached s \<Longrightarrow>
   pp_consecutive_empty_pages loc + m = 3 \<Longrightarrow> pp_current_page loc + int m \<le> 201 \<Longrightarrow>
   (\<forall>i<m. fst (pages (requests_made s + i)) = []) \<Longrightarrow>
   \<exists>loc' s'. pl_category_loop pages category_id category_name loc s = (loc', s')
      \<and> requests_made s' = requests_made s + m
      \<and> pp_consecutive_empty_pages loc' = 3"
proof (induction m arbitrary: loc s)
  case 0
  then show ?case
    by (subst pl_category_loop.simps) (simp add: pl_max_empty_pages_def)
next
  case (Suc m)
  from Suc.prems have cond: "pp_consecutive_empty_pages loc < pl_max_empty_pages"
      "pp_current_page loc \<le> pl_max_pages"
    by (simp_all add: pl_max_empty_pages_def pl_max_pages_def)
  from Suc.prems(5) have first: "fst (pages (requests_made s)) = []" by force
  let ?loc1 = "loc\<lparr>pp_consecutive_empty_pages := Suc (pp_consecutive_empty_pages loc),
                    pp_current_page := pp_current_page loc + 1\<rparr>"
  let ?s1 = "s\<lparr>requests_made := Suc (requests_made s)\<rparr>"
  have it: "pl_iteration pages category_id category_name loc s = (Continue ?loc1, ?s1)"
    using Suc.prems(2) first
    by (rule pl_iteration_empty_page [where pages = pages and s = s])
  have sh: "\<not> pl_shutdown_requested ?s1" using Suc.prems(1) by simp
  have lim: "\<not> pl_limit_reached ?s1"
    using Suc.prems(2) by (simp add: pl_limit_reached_def split: option.splits)
  have cnt: "pp_consecutive_empty_pages ?loc1 + m = 3" using Suc.prems(3) by simp
  have pg: "pp_current_page ?loc1 + int m \<le> 201" using Suc.prems(4) by simp
  have later: "\<forall>i<m. fst (pages (requests_made ?s1 + i)) = []"
  proof (intro allI impI)
    fix i assume "i < m"
    then have "Suc i < Suc m" by simp
    with Suc.prems(5) have "fst (pages (requests_made s + Suc i)) = []" by blast
    then show "fst (pages (requests_made ?s1 + i)) = []" by simp
  qed
  from Suc.IH [OF sh lim cnt pg later]
  obtain loc' s' where "pl_category_loop pages category_id category_name ?loc1 ?s1 = (loc', s')"
    and "requests_made s' = requests_made ?s1 + m"
    and "pp_consecutive_empty_pages loc' = 3"
    by blast
  with it cond Suc.prems(1) show ?case
    by (subst pl_category_loop.simps) simp
qed

lemma ah_first_empty_page:
  assumes "\<not> ah_shutdown_requested s" "\<not> ah_limit_reached s" "0 < ah_max_retries s"
    and pg: "net (requests_made s) = Response 200 (Some (Search_json []))"
  shows "\<exists>s1. ah_scrape_category_products net (Suc fuel) page category_products s
                = Some (category_products, s1)
             \<and> requests_made s1 = Suc (requests_made s)"
proof -
  have "net (requests_made s + 0) = Response 200 (Some (Search_json []))" using pg by simp
  from ah_request_failing_then_success [where k = 0 and s = s and net = net, OF assms(3) _ this]
  obtain s' where "ah_make_request_with_retry net s = (Inr (Some (Search_json [])), s')"
    and "requests_made s' = Suc (requests_made s)"
    by auto
  with assms(1,2) show ?thesis by simp
qed

lemma jm_loop_still_running:
  "\<not> jm_shutdown_requested s \<Longrightarrow> 0 < jm_max_retries s \<Longrightarrow>
   lp_consecutive_empty_pages loc + m < jm_max_empty_pages \<Longrightarrow>
   (\<forall>i<m. net (requests_made s + i) = jm_page []) \<Longrightarrow>
   jm_category_loop net m category_name loc s = None"
proof (induction m arbitrary: loc s)
  case 0
  then show ?case by simp
next
  case (Suc m)
  from Suc.prems have cond: "lp_consecutive_empty_pages loc < jm_max_empty_pages" by simp
  from Suc.prems(4) have "net (requests_made s) = jm_page []" by force
  from jm_iteration_empty_page
         [where s = s and net = net and category_name = category_name and loc = loc,
          OF Suc.prems(2) this]
  obtain s1 where it: "jm_iteration net category_name loc s
                = (Inr (Continue (loc\<lparr>lp_consecutive_empty_pages := Suc (lp_consecutive_empty_pages loc),
                                        lp_offset := lp_offset loc + jm_current_batch_size s\<rparr>)), s1)"
    and rm: "requests_made s1 = Suc (requests_made s)"
    and fr: "jm_request_frame s s1"
    by blast
  let ?loc1 = "loc\<lparr>lp_consecutive_empty_pages := Suc (lp_consecutive_empty_pages loc),
                    lp_offset := lp_offset loc + jm_current_batch_size s\<rparr>"
  have sh: "\<not> jm_shutdown_requested s1" and mr: "0 < jm_max_retries s1"
    using fr Suc.prems(1,2) by (simp_all add: jm_request_frame_def)
  have cnt: "lp_consecutive_empty_pages ?loc1 + m < jm_max_empty_pages"
    using Suc.prems(3) by simp
  have later: "\<forall>i<m. net (requests_made s1 + i) = jm_page []"
  proof (intro allI impI)
    fix i assume "i < m"
    then have "Suc i < Suc m" by simp
    with Suc.prems(4) have "net (requests_made s + Suc i) = jm_page []" by blast
    then show "net (requests_made s1 + i) = jm_page []" by (simp add: rm)
  qed
  from Suc.IH [OF sh mr cnt later] it cond Suc.prems(1) show ?case by simp
qed


text \<open>A page with products sets the counter of empty pages back to zero.\<close>

lemma jm_request_frame_trans:
  "jm_request_frame s s1 \<Longrightarrow> jm_request_frame s1 s2 \<Longrightarrow> jm_request_frame s s2"
  by (simp add: jm_request_frame_def)

lemma jm_collect_fields:
  "jm_collect category_name ps (s, acc) = (s2, new_products) \<Longrightarrow>
   requests_made s2 = requests_made s
   \<and> jm_shutdown_requested s2 = jm_shutdown_requested s
   \<and> jm_max_retries s2 = jm_max_retries s
   \<and> jm_max_products s2 = jm_max_products s
   \<and> jm_total_scraped s2 = jm_total_scraped s
   \<and> jm_products_file s2 = jm_products_file s"
proof (induction ps arbitrary: s acc)
  case Nil
  then show ?case by simp
next
  case (Cons p ps)
  show ?case
  proof (cases "truthy (jm_id p) \<and> jm_id p \<notin> set (jm_scraped_products s)")
    case True
    let ?s1 = "s\<lparr>jm_scraped_products := List.insert (jm_id p) (jm_scraped_products s)\<rparr>"
    let ?acc1 = "acc @ [\<lparr>je_product = p, je_scraped_from_category = category_name\<rparr>]"
    from Cons.prems True
    have "jm_collect category_name ps (?s1, ?acc1) = (s2, new_products)" by simp
    from Cons.IH [OF this] show ?thesis by simp
  next
    case False
    with Cons.prems have "jm_collect category_name ps (s, acc) = (s2, new_products)" by auto
    from Cons.IH [OF this] show ?thesis .
  qed
qed

lemma jm_save_products_fields:
  assumes "jm_products_file s \<noteq> Undecodable"
  shows "fst (jm_save_products products s) = Inr ()"
    and "requests_made (snd (jm_save_products products s)) = requests_made s"
    and "jm_shutdown_requested (snd (jm_save_products products s)) = jm_shutdown_requested s"
    and "jm_max_retries (snd (jm_save_products products s)) = jm_max_retries s"
    and "jm_max_products (snd (jm_save_products products s)) = jm_max_products s"
    and "jm_total_scraped (snd (jm_save_products products s)) = jm_total_scraped s"
  using assms
  by (cases "jm_products_file s";
      simp add: jm_save_products_def path_exists_def Let_def log_def)+

lemma jm_iteration_nonempty_page:
  assumes mr: "0 < jm_max_retries s" and pg: "net (requests_made s) = jm_page ps"
    and ne: "ps \<noteq> []" and nolimit: "jm_max_products s = None"
    and pfl: "jm_products_file s \<noteq> Undecodable"
  shows "\<exists>loc1 s1. jm_iteration net category_name loc s = (Inr (Continue loc1), s1)
             \<and> lp_consecutive_empty_pages loc1 = 0
             \<and> requests_made s1 = Suc (requests_made s)
             \<and> jm_shutdown_requested s1 = jm_shutdown_requested s
             \<and> jm_max_retries s1 = jm_max_retries s"
proof -
  let ?body = "\<lparr>jb_has_data = True, jb_data = Search_products ps [], jb_errors = False\<rparr>"
  have "net (requests_made s + 0) = Response 200 (Some ?body)"
    using pg by (simp add: jm_page_def)
  from jm_request_throttled_then_success [where k = 0 and s = s and net = net, OF mr _ this]
  obtain s' where req: "jm_make_graphql_request net s = ((Some (Search_products ps []), True), s')"
    and rm: "requests_made s' = Suc (requests_made s)"
    by auto
  have fr: "jm_request_frame s s'"
    using jm_request_frame [of s net] req by simp
  obtain s2 new_products where col: "jm_collect category_name ps (s', []) = (s2, new_products)"
    by (cases "jm_collect category_name ps (s', [])")
  from jm_collect_fields [OF col] fr rm nolimit pfl
  have f2: "requests_made s2 = Suc (requests_made s)"
      "jm_shutdown_requested s2 = jm_shutdown_requested s"
      "jm_max_retries s2 = jm_max_retries s"
      "jm_max_products s2 = None"
      "jm_products_file s2 \<noteq> Undecodable"
    by (simp_all add: jm_request_frame_def)
  let ?sv = "if new_products \<noteq> [] then jm_save_products new_products s2 else (Inr (), s2)"
  have "\<exists>s3. ?sv = (Inr (), s3)"
  proof (cases "new_products = []")
    case True
    then show ?thesis by simp
  next
    case False
    have ok: "fst (jm_save_products new_products s2) = Inr ()"
      by (rule jm_save_products_fields(1) [OF f2(5)])
    have "?sv = jm_save_products new_products s2" using False by simp
    also have "\<dots> = (Inr (), snd (jm_save_products new_products s2))"
      using ok by (simp add: prod_eq_iff)
    finally show ?thesis by (rule exI)
  qed
  then obtain s3 where sv: "?sv = (Inr (), s3)" ..
  have f3: "requests_made s3 = Suc (requests_made s)"
      "jm_shutdown_requested s3 = jm_shutdown_requested s"
      "jm_max_retries s3 = jm_max_retries s"
      "jm_max_products s3 = None"
    using sv f2 jm_save_products_fields(2-5) [OF f2(5), of new_products]
    by (auto split: if_splits)
  show ?thesis
    using req ne col sv f3
    by (simp add: jm_iteration_def Let_def jm_limit_reached_def jm_save_progress_def
                  call_update_progress_def sleep_for_def)
qed

lemma jm_loop_unroll_empties:
  "\<not> jm_shutdown_requested s \<Longrightarrow> 0 < jm_max_retries s \<Longrightarrow>
   lp_consecutive_empty_pages loc + m \<le> jm_max_empty_pages \<Longrightarrow>
   (\<forall>i<m. net (requests_made s + i) = jm_page []) \<Longrightarrow>
   \<exists>loc1 s1. jm_category_loop net (m + fuel) category_name loc s
               = jm_category_loop net fuel category_name loc1 s1
      \<and> requests_made s1 = requests_made s + m
      \<and> jm_request_frame s s1
      \<and> lp_consecutive_empty_pages loc1 = lp_consecutive_empty_pages loc + m"
proof (induction m arbitrary: loc s)
  case 0
  have "jm_request_frame s s" by (simp add: jm_request_frame_def)
  then show ?case by auto
next
  case (Suc m)
  from Suc.prems have cond: "lp_consecutive_empty_pages loc < jm_max_empty_pages" by simp
  from Suc.prems(4) have "net (requests_made s) = jm_page []" by force
  from jm_iteration_empty_page
         [where s = s and net = net and category_name = category_name and loc = loc,
          OF Suc.prems(2) this]
  obtain s1 where it: "jm_iteration net category_name loc s
                = (Inr (Continue (loc\<lparr>lp_consecutive_empty_pages := Suc (lp_consecutive_empty_pages loc),
                                        lp_offset := lp_offset loc + jm_current_batch_size s\<rparr>)), s1)"
    and rm: "requests_made s1 = Suc (requests_made s)"
    and fr: "jm_request_frame s s1"
    by blast
  let ?loc1 = "loc\<lparr>lp_consecutive_empty_pages := Suc (lp_consecutive_empty_pages loc),
                    lp_offset := lp_offset loc + jm_current_batch_size s\<rparr>"
  have sh: "\<not> jm_shutdown_requested s1" and mr: "0 < jm_max_retries s1"
    using fr Suc.prems(1,2) by (simp_all add: jm_request_frame_def)
  have cnt: "lp_consecutive_empty_pages ?loc1 + m \<le> jm_max_empty_pages"
    using Suc.prems(3) by simp
  have later: "\<forall>i<m. net (requests_made s1 + i) = jm_page []"
  proof (intro allI impI)
    fix i assume "i < m"
    then have "Suc i < Suc m" by simp
    with Suc.prems(4) have "net (requests_made s + Suc i) = jm_page []" by blast
    then show "net (requests_made s1 + i) = jm_page []" by (simp add: rm)
  qed
  from Suc.IH [OF sh mr cnt later]
  obtain loc2 s2 where run: "jm_category_loop net (m + fuel) category_name ?loc1 s1
               = jm_category_loop net fuel category_name loc2 s2"
    and rm2: "requests_made s2 = requests_made s1 + m"
    and fr2: "jm_request_frame s1 s2"
    and c2: "lp_consecutive_empty_pages loc2 = lp_consecutive_empty_pages ?loc1 + m"
    by blast
  have "jm_category_loop net (Suc m + fuel) category_name loc s
          = jm_category_loop net fuel category_name loc2 s2"
    using it cond Suc.prems(1) run by simp
  moreover have "requests_made s2 = requests_made s + Suc m" using rm rm2 by simp
  moreover have "jm_request_frame s s2" using fr fr2 by (rule jm_request_frame_trans)
  moreover have "lp_consecutive_empty_pages loc2 = lp_consecutive_empty_pages loc + Suc m"
    using c2 by simp
  ultimately show ?case by blast
qed

lemma jm_loop_reset_run:
  assumes sh: "\<not> jm_shutdown_requested s" and mr: "0 < jm_max_retries s"
    and nolimit: "jm_max_products s = None" and pfl: "jm_products_file s \<noteq> Undecodable"
    and c: "lp_consecutive_empty_pages loc + j < jm_max_empty_pages"
    and first: "\<forall>i<j. net (requests_made s + i) = jm_page []"
    and pg: "net (requests_made s + j) = jm_page ps" and ne: "ps \<noteq> []"
    and last: "\<forall>i<jm_max_empty_pages. net (requests_made s + j + 1 + i) = jm_page []"
    and fuel: "j + 1 + jm_max_empty_pages \<le> fuel"
  shows "\<exists>loc' s'. jm_category_loop net fuel category_name loc s = Some (Inr loc', s')
      \<and> requests_made s' = requests_made s + j + 1 + jm_max_empty_pages
      \<and> lp_consecutive_empty_pages loc' = jm_max_empty_pages"
proof -
  define fuel' where "fuel' = fuel - Suc j"
  have fl: "fuel = j + Suc fuel'" and fl': "jm_max_empty_pages \<le> fuel'"
    using fuel by (simp_all add: fuel'_def)
  have c': "lp_consecutive_empty_pages loc + j \<le> jm_max_empty_pages" using c by simp
  from jm_loop_unroll_empties [OF sh mr c' first, of "Suc fuel'" category_name]
  obtain loc1 s1 where run1: "jm_category_loop net (j + Suc fuel') category_name loc s
               = jm_category_loop net (Suc fuel') category_name loc1 s1"
    and rm1: "requests_made s1 = requests_made s + j"
    and fr1: "jm_request_frame s s1"
    and c1: "lp_consecutive_empty_pages loc1 = lp_consecutive_empty_pages loc + j"
    by blast
  have sh1: "\<not> jm_shutdown_requested s1" and mr1: "0 < jm_max_retries s1"
    and nl1: "jm_max_products s1 = None" and pfl1: "jm_products_file s1 \<noteq> Undecodable"
    using fr1 sh mr nolimit pfl by (simp_all add: jm_request_frame_def)
  have pg1: "net (requests_made s1) = jm_page ps" using pg rm1 by simp
  from jm_iteration_nonempty_page
         [where net = net and s = s1 and category_name = category_name and loc = loc1,
          OF mr1 pg1 ne nl1 pfl1]
  obtain loc2 s2 where it: "jm_iteration net category_name loc1 s1 = (Inr (Continue loc2), s2)"
    and c2: "lp_consecutive_empty_pages loc2 = 0"
    and rm2: "requests_made s2 = Suc (requests_made s1)"
    and sh2: "jm_shutdown_requested s2 = jm_shutdown_requested s1"
    and mr2: "jm_max_retries s2 = jm_max_retries s1"
    by blast
  have guard: "lp_consecutive_empty_pages loc1 < jm_max_empty_pages" using c c1 by simp
  have run2: "jm_category_loop net (Suc fuel') category_name loc1 s1
                = jm_category_loop net fuel' category_name loc2 s2"
    using it guard sh1 by simp
  have sh2': "\<not> jm_shutdown_requested s2" and mr2': "0 < jm_max_retries s2"
    using sh1 mr1 sh2 mr2 by simp_all
  have cnt: "lp_consecutive_empty_pages loc2 + jm_max_empty_pages = jm_max_empty_pages"
    using c2 by simp
  have later: "\<forall>i<jm_max_empty_pages. net (requests_made s2 + i) = jm_page []"
  proof (intro allI impI)
    fix i assume "i < jm_max_empty_pages"
    with last have "net (requests_made s + j + 1 + i) = jm_page []" by blast
    then show "net (requests_made s2 + i) = jm_page []" by (simp add: rm1 rm2)
  qed
  from jm_loop_empty_run [OF sh2' mr2' cnt later fl', of category_name]
  obtain loc' s' where "jm_category_loop net fuel' category_name loc2 s2 = Some (Inr loc', s')"
    and "requests_made s' = requests_made s2 + jm_max_empty_pages"
    and "lp_consecutive_empty_pages loc' = jm_max_empty_pages"
    by blast
  with run1 run2 fl rm1 rm2 show ?thesis by simp
qed

lemma kv_collect_fields:
  "kv_max_products_limit s = None \<Longrightarrow>
   kv_collect ps (s, acc, t) = (returned, s2, detailed_products, t2) \<Longrightarrow>
   \<not> returned
   \<and> requests_made s2 = requests_made s
   \<and> kv_max_products_limit s2 = None
   \<and> kv_products_file s2 = kv_products_file s"
proof (induction ps arbitrary: s acc t)
  case Nil
  then show ?case by simp
next
  case (Cons p ps)
  have nl: "\<not> kv_limit_reached s" using Cons.prems(1) by (simp add: kv_limit_reached_def)
  show ?case
  proof (cases "truthy (kv_item_id p) \<and> kv_item_id p \<notin> set (kv_scraped_products s)")
    case True
    let ?s1 = "s\<lparr>kv_scraped_products := List.insert (kv_item_id p) (kv_scraped_products s),
                   kv_total_scraped := kv_total_scraped s + 1\<rparr>"
    have l1: "kv_max_products_limit ?s1 = None" using Cons.prems(1) by simp
    then have nl1: "\<not> kv_limit_reached ?s1" by (simp add: kv_limit_reached_def)
    from Cons.prems(2) True nl nl1
    have "kv_collect ps (?s1, acc @ [\<lparr>ke_product = p\<rparr>], t + 1)
            = (returned, s2, detailed_products, t2)"
      by (simp add: Let_def)
    from Cons.IH [OF l1 this] show ?thesis by simp
  next
    case False
    with Cons.prems(2) nl
    have "kv_collect ps (s, acc, t) = (returned, s2, detailed_products, t2)"
      by (auto simp: Let_def)
    from Cons.IH [OF Cons.prems(1) this] show ?thesis .
  qed
qed

lemma kv_save_data_fields:
  assumes "kv_products_file s \<noteq> Undecodable"
  shows "fst (kv_save_data data s) = Inr ()"
    and "requests_made (snd (kv_save_data data s)) = requests_made s"
    and "kv_max_products_limit (snd (kv_save_data data s)) = kv_max_products_limit s"
    and "kv_products_file (snd (kv_save_data data s)) \<noteq> Undecodable"
  using assms
  by (cases "kv_products_file s";
      simp add: kv_save_data_def path_exists_def Let_def log_def)+

lemma kv_iteration_nonempty_page:
  assumes pg: "fetch (requests_made s) = kv_page ps" and ne: "ps \<noteq> []"
    and nolimit: "kv_max_products_limit s = None"
    and pfl: "kv_products_file s \<noteq> Undecodable"
  shows "\<exists>loc1 s1. kv_iteration fetch loc s = (Continue loc1, s1)
             \<and> kl_consecutive_empty_pages loc1 = 0
             \<and> requests_made s1 = Suc (requests_made s)
             \<and> kv_max_products_limit s1 = None
             \<and> kv_products_file s1 \<noteq> Undecodable"
proof -
  let ?s1 = "s\<lparr>requests_made := Suc (requests_made s)\<rparr>"
  have req: "kv_make_request_with_retry fetch s = (Inr (Some (Kv_search ps 0)), ?s1)"
    using pg by (simp add: kv_make_request_with_retry_def kv_page_def)
  obtain returned s2 detailed_products t2
    where col: "kv_collect ps (?s1, [], kl_total_scraped loc)
                  = (returned, s2, detailed_products, t2)"
    by (cases "kv_collect ps (?s1, [], kl_total_scraped loc)") auto
  have "kv_max_products_limit ?s1 = None" using nolimit by simp
  from kv_collect_fields [OF this col] pfl
  have f2: "\<not> returned" "requests_made s2 = Suc (requests_made s)"
      "kv_max_products_limit s2 = None" "kv_products_file s2 \<noteq> Undecodable"
    by simp_all
  let ?sv = "if detailed_products \<noteq> [] then kv_save_data detailed_products s2 else (Inr (), s2)"
  have "\<exists>s3. ?sv = (Inr (), s3)"
  proof (cases "detailed_products = []")
    case True
    then show ?thesis by simp
  next
    case False
    have ok: "fst (kv_save_data detailed_products s2) = Inr ()"
      by (rule kv_save_data_fields(1) [OF f2(4)])
    have "?sv = kv_save_data detailed_products s2" using False by simp
    also have "\<dots> = (Inr (), snd (kv_save_data detailed_products s2))"
      using ok by (simp add: prod_eq_iff)
    finally show ?thesis by (rule exI)
  qed
  then obtain s3 where sv: "?sv = (Inr (), s3)" ..
  have f3: "requests_made s3 = Suc (requests_made s)"
      "kv_max_products_limit s3 = None" "kv_products_file s3 \<noteq> Undecodable"
    using sv f2 kv_save_data_fields(2-4) [OF f2(4), of detailed_products]
    by (auto split: if_splits)
  let ?s4 = "if detailed_products \<noteq> [] then kv_save_progress s3 else s3"
  have f4: "requests_made ?s4 = Suc (requests_made s)"
      "kv_max_products_limit ?s4 = None" "kv_products_file ?s4 \<noteq> Undecodable"
    using f3 by (simp_all add: kv_save_progress_def)
  then have nl4: "\<not> kv_limit_reached ?s4" by (simp add: kv_limit_reached_def)
  have "kv_try_body fetch loc s
          = (Inr (Continue (loc\<lparr>kl_consecutive_empty_pages := 0, kl_total_scraped := t2,
                                 kl_page := kl_page loc + 1\<rparr>)),
             sleep_for Pace ?s4)"
    using req ne col sv f2(1) nl4
    by (simp add: kv_try_body_def Let_def)
  then have "kv_iteration fetch loc s
          = (Continue (loc\<lparr>kl_consecutive_empty_pages := 0, kl_total_scraped := t2,
                            kl_page := kl_page loc + 1\<rparr>),
             sleep_for Pace ?s4)"
    by (simp add: kv_iteration_def)
  moreover have "requests_made (sleep_for Pace ?s4) = Suc (requests_made s)"
      "kv_max_products_limit (sleep_for Pace ?s4) = None"
      "kv_products_file (sleep_for Pace ?s4) \<noteq> Undecodable"
    using f4 by (simp_all add: sleep_for_def)
  ultimately show ?thesis by simp
qed

lemma kv_loop_unroll_empties:
  "kl_consecutive_empty_pages loc + m \<le> kv_max_empty_pages \<Longrightarrow>
   (\<forall>i<m. fetch (requests_made s + i) = kv_empty_page) \<Longrightarrow>
   \<exists>loc1. kv_category_loop fetch (m + fuel) loc s
            = kv_category_loop fetch fuel loc1 (s\<lparr>requests_made := requests_made s + m\<rparr>)
      \<and> kl_consecutive_empty_pages loc1 = kl_consecutive_empty_pages loc + m"
proof (induction m arbitrary: loc s)
  case 0
  then show ?case by auto
next
  case (Suc m)
  from Suc.prems have cond: "kl_consecutive_empty_pages loc < kv_max_empty_pages" by simp
  from Suc.prems(2) have first: "fetch (requests_made s) = kv_empty_page" by force
  let ?loc1 = "loc\<lparr>kl_consecutive_empty_pages := Suc (kl_consecutive_empty_pages loc),
                    kl_page := kl_page loc + 1\<rparr>"
  let ?s1 = "s\<lparr>requests_made := Suc (requests_made s)\<rparr>"
  have it: "kv_iteration fetch loc s = (Continue ?loc1, ?s1)"
    using first by (rule kv_iteration_empty_page [where fetch = fetch and s = s])
  have cnt: "kl_consecutive_empty_pages ?loc1 + m \<le> kv_max_empty_pages"
    using Suc.prems(1) by simp
  have later: "\<forall>i<m. fetch (requests_made ?s1 + i) = kv_empty_page"
  proof (intro allI impI)
    fix i assume "i < m"
    then have "Suc i < Suc m" by simp
    with Suc.prems(2) have "fetch (requests_made s + Suc i) = kv_empty_page" by blast
    then show "fetch (requests_made ?s1 + i) = kv_empty_page" by simp
  qed
  from Suc.IH [OF cnt later]
  obtain loc2 where run: "kv_category_loop fetch (m + fuel) ?loc1 ?s1
            = kv_category_loop fetch fuel loc2 (?s1\<lparr>requests_made := requests_made ?s1 + m\<rparr>)"
    and c2: "kl_consecutive_empty_pages loc2 = kl_consecutive_empty_pages ?loc1 + m"
    by blast
  have "kv_category_loop fetch (Suc m + fuel) loc s
          = kv_category_loop fetch fuel loc2 (s\<lparr>requests_made := requests_made s + Suc m\<rparr>)"
    using it cond run by simp
  moreover have "kl_consecutive_empty_pages loc2 = kl_consecutive_empty_pages loc + Suc m"
    using c2 by simp
  ultimately show ?case by blast
qed

lemma kv_loop_reset_run:
  assumes nolimit: "kv_max_products_limit s = None"
    and pfl: "kv_products_file s \<noteq> Undecodable"
    and c: "kl_consecutive_empty_pages loc + j < kv_max_empty_pages"
    and first: "\<forall>i<j. fetch (requests_made s + i) = kv_empty_page"
    and pg: "fetch (requests_made s + j) = kv_page ps" and ne: "ps \<noteq> []"
    and last: "\<forall>i<kv_max_empty_pages. fetch (requests_made s + j + 1 + i) = kv_empty_page"
    and fuel: "j + 1 + kv_max_empty_pages \<le> fuel"
  shows "\<exists>loc' s'. kv_category_loop fetch fuel loc s = Some (loc', s')
      \<and> requests_made s' = requests_made s + j + 1 + kv_max_empty_pages
      \<and> kl_consecutive_empty_pages loc' = kv_max_empty_pages"
proof -
  define fuel' where "fuel' = fuel - Suc j"
  have fl: "fuel = j + Suc fuel'" and fl': "kv_max_empty_pages \<le> fuel'"
    using fuel by (simp_all add: fuel'_def)
  let ?s1 = "s\<lparr>requests_made := requests_made s + j\<rparr>"
  have c': "kl_consecutive_empty_pages loc + j \<le> kv_max_empty_pages" using c by simp
  from kv_loop_unroll_empties [OF c' first, of "Suc fuel'"]
  obtain loc1 where run1: "kv_category_loop fetch (j + Suc fuel') loc s
               = kv_category_loop fetch (Suc fuel') loc1 ?s1"
    and c1: "kl_consecutive_empty_pages loc1 = kl_consecutive_empty_pages loc + j"
    by blast
  have pg1: "fetch (requests_made ?s1) = kv_page ps" using pg by simp
  have nl1: "kv_max_products_limit ?s1 = None" using nolimit by simp
  have pfl1: "kv_products_file ?s1 \<noteq> Undecodable" using pfl by simp
  from kv_iteration_nonempty_page
         [where fetch = fetch and s = ?s1 and loc = loc1, OF pg1 ne nl1 pfl1]
  obtain loc2 s2 where it: "kv_iteration fetch loc1 ?s1 = (Continue loc2, s2)"
    and c2: "kl_consecutive_empty_pages loc2 = 0"
    and rm2: "requests_made s2 = Suc (requests_made ?s1)"
    by blast
  have guard: "kl_consecutive_empty_pages loc1 < kv_max_empty_pages" using c c1 by simp
  have run2: "kv_category_loop fetch (Suc fuel') loc1 ?s1 = kv_category_loop fetch fuel' loc2 s2"
    using it guard by simp
  have cnt: "kl_consecutive_empty_pages loc2 + kv_max_empty_pages = 3"
    using c2 by (simp add: kv_max_empty_pages_def)
  have later: "\<forall>i<kv_max_empty_pages. fetch (requests_made s2 + i) = kv_empty_page"
  proof (intro allI impI)
    fix i assume "i < kv_max_empty_pages"
    with last have "fetch (requests_made s + j + 1 + i) = kv_empty_page" by blast
    then show "fetch (requests_made s2 + i) = kv_empty_page" by (simp add: rm2)
  qed
  from kv_loop_empty_run [OF cnt later fl']
  obtain loc' s' where "kv_category_loop fetch fuel' loc2 s2 = Some (loc', s')"
    and "requests_made s' = requests_made s2 + kv_max_empty_pages"
    and "kl_consecutive_empty_pages loc' = 3"
    by blast
  with run1 run2 fl rm2 show ?thesis by (simp add: kv_max_empty_pages_def)
qed

lemma pl_collect_fields:
  "pl_max_products_limit s = None \<Longrightarrow>
   pl_collect ps (s, acc, t) = (s2, new_products, t2) \<Longrightarrow>
   requests_made s2 = requests_made s
   \<and> pl_shutdown_requested s2 = pl_shutdown_requested s
   \<and> pl_max_products_limit s2 = None
   \<and> pl_products_file s2 = pl_products_file s"
proof (induction ps arbitrary: s acc t)
  case Nil
  then show ?case by simp
next
  case (Cons p ps)
  show ?case
  proof (cases "truthy (pl_sku p) \<and> pl_sku p \<notin> set (pl_scraped_products s)")
    case True
    let ?s1 = "s\<lparr>pl_scraped_products := List.insert (pl_sku p) (pl_scraped_products s),
                   pl_total_scraped := pl_total_scraped s + 1\<rparr>"
    have l1: "pl_max_products_limit ?s1 = None" using Cons.prems(1) by simp
    then have nl1: "\<not> pl_limit_reached ?s1" by (simp add: pl_limit_reached_def)
    from Cons.prems(2) True nl1
    have "pl_collect ps (?s1, acc @ [p], t + 1) = (s2, new_products, t2)"
      by (simp add: Let_def)
    from Cons.IH [OF l1 this] show ?thesis by simp
  next
    case False
    with Cons.prems(2)
    have "pl_collect ps (s, acc, t) = (s2, new_products, t2)"
      by (auto simp: Let_def)
    from Cons.IH [OF Cons.prems(1) this] show ?thesis .
  qed
qed

lemma pl_save_products_fields:
  assumes "pl_products_file s \<noteq> Undecodable"
  shows "fst (pl_save_products products s) = Inr ()"
    and "requests_made (snd (pl_save_products products s)) = requests_made s"
    and "pl_shutdown_requested (snd (pl_save_products products s)) = pl_shutdown_requested s"
    and "pl_max_products_limit (snd (pl_save_products products s)) = pl_max_products_limit s"
    and "pl_products_file (snd (pl_save_products products s)) \<noteq> Undecodable"
  using assms
  by (cases "pl_products_file s";
      simp add: pl_save_products_def path_exists_def Let_def)+

lemma pl_iteration_nonempty_page:
  assumes pg: "pages (requests_made s) = (ps, True, total_pages)" and ne: "ps \<noteq> []"
    and nolimit: "pl_max_products_limit s = None"
    and pfl: "pl_products_file s \<noteq> Undecodable"
  shows "\<exists>loc1 s1. pl_iteration pages category_id category_name loc s = (Continue loc1, s1)
             \<and> pp_consecutive_empty_pages loc1 = 0
             \<and> pp_current_page loc1 = pp_current_page loc + 1
             \<and> requests_made s1 = Suc (requests_made s)
             \<and> pl_shutdown_requested s1 = pl_shutdown_requested s
             \<and> pl_max_products_limit s1 = None
             \<and> pl_products_file s1 \<noteq> Undecodable"
proof -
  let ?s1 = "s\<lparr>requests_made := Suc (requests_made s)\<rparr>"
  have req: "pl_get_products_ultra_fixed pages s = ((ps, True, total_pages), ?s1)"
    using pg by (simp add: pl_get_products_ultra_fixed_def)
  have nl0: "\<not> pl_limit_reached s" using nolimit by (simp add: pl_limit_reached_def)
  obtain s2 new_products t2
    where col: "pl_collect ps (?s1, [], pp_total_products loc) = (s2, new_products, t2)"
    by (cases "pl_collect ps (?s1, [], pp_total_products loc)") auto
  have "pl_max_products_limit ?s1 = None" using nolimit by simp
  from pl_collect_fields [OF this col] pfl
  have f2: "requests_made s2 = Suc (requests_made s)"
      "pl_shutdown_requested s2 = pl_shutdown_requested s"
      "pl_max_products_limit s2 = None" "pl_products_file s2 \<noteq> Undecodable"
    by simp_all
  let ?sv = "if new_products \<noteq> [] then pl_save_products new_products s2 else (Inr (), s2)"
  have "\<exists>s3. ?sv = (Inr (), s3)"
  proof (cases "new_products = []")
    case True
    then show ?thesis by simp
  next
    case False
    have ok: "fst (pl_save_products new_products s2) = Inr ()"
      by (rule pl_save_products_fields(1) [OF f2(4)])
    have "?sv = pl_save_products new_products s2" using False by simp
    also have "\<dots> = (Inr (), snd (pl_save_products new_products s2))"
      using ok by (simp add: prod_eq_iff)
    finally show ?thesis by (rule exI)
  qed
  then obtain s3 where sv: "?sv = (Inr (), s3)" ..
  have f3: "requests_made s3 = Suc (requests_made s)"
      "pl_shutdown_requested s3 = pl_shutdown_requested s"
      "pl_max_products_limit s3 = None" "pl_products_file s3 \<noteq> Undecodable"
    using sv f2 pl_save_products_fields(2-5) [OF f2(4), of new_products]
    by (auto split: if_splits)
  then have nl3: "\<not> pl_limit_reached s3" by (simp add: pl_limit_reached_def)
  obtain st s7 where tb: "pl_try_body pages category_id category_name loc s = (Inr (Continue st), s7)"
    and st: "pp_consecutive_empty_pages st = 0" "pp_current_page st = pp_current_page loc + 1"
    and f7: "requests_made s7 = Suc (requests_made s)"
      "pl_shutdown_requested s7 = pl_shutdown_requested s"
      "pl_max_products_limit s7 = None" "pl_products_file s7 \<noteq> Undecodable"
    using req ne col sv nl3 f3
    by (simp add: pl_try_body_def Let_def call_update_progress_def pl_save_progress_def
                  sleep_for_def)
  then show ?thesis
    using nl0 by (simp add: pl_iteration_def)
qed

lemma pl_loop_unroll_empties:
  "\<not> pl_shutdown_requested s \<Longrightarrow> pl_max_products_limit s = None \<Longrightarrow>
   pp_consecutive_empty_pages loc + m \<le> pl_max_empty_pages \<Longrightarrow>
   pp_current_page loc + int m \<le> pl_max_pages + 1 \<Longrightarrow>
   (\<forall>i<m. fst (pages (requests_made s + i)) = []) \<Longrightarrow>
   \<exists>loc1. pl_category_loop pages category_id category_name loc s
            = pl_category_loop pages category_id category_name loc1
                (s\<lparr>requests_made := requests_made s + m\<rparr>)
      \<and> pp_consecutive_empty_pages loc1 = pp_consecutive_empty_pages loc + m
      \<and> pp_current_page loc1 = pp_current_page loc + int m"
proof (induction m arbitrary: loc s)
  case 0
  show ?case by (intro exI [where x = loc]) (simp del: pl_category_loop.simps)
next
  case (Suc m)
  from Suc.prems have cond: "pp_consecutive_empty_pages loc < pl_max_empty_pages"
      "pp_current_page loc \<le> pl_max_pages"
    by simp_all
  have nl: "\<not> pl_limit_reached s" using Suc.prems(2) by (simp add: pl_limit_reached_def)
  from Suc.prems(5) have first: "fst (pages (requests_made s)) = []" by force
  let ?loc1 = "loc\<lparr>pp_consecutive_empty_pages := Suc (pp_consecutive_empty_pages loc),
                    pp_current_page := pp_current_page loc + 1\<rparr>"
  let ?s1 = "s\<lparr>requests_made := Suc (requests_made s)\<rparr>"
  have it: "pl_iteration pages category_id category_name loc s = (Continue ?loc1, ?s1)"
    using nl first by (rule pl_iteration_empty_page [where pages = pages and s = s])
  have sh: "\<not> pl_shutdown_requested ?s1" using Suc.prems(1) by simp
  have lim: "pl_max_products_limit ?s1 = None" using Suc.prems(2) by simp
  have cnt: "pp_consecutive_empty_pages ?loc1 + m \<le> pl_max_empty_pages"
    using Suc.prems(3) by simp
  have pg: "pp_current_page ?loc1 + int m \<le> pl_max_pages + 1" using Suc.prems(4) by simp
  have later: "\<forall>i<m. fst (pages (requests_made ?s1 + i)) = []"
  proof (intro allI impI)
    fix i assume "i < m"
    then have "Suc i < Suc m" by simp
    with Suc.prems(5) have "fst (pages (requests_made s + Suc i)) = []" by blast
    then show "fst (pages (requests_made ?s1 + i)) = []" by simp
  qed
  from Suc.IH [OF sh lim cnt pg later]
  obtain loc2 where run: "pl_category_loop pages category_id category_name ?loc1 ?s1
            = pl_category_loop pages category_id category_name loc2
                (?s1\<lparr>requests_made := requests_made ?s1 + m\<rparr>)"
    and c2: "pp_consecutive_empty_pages loc2 = pp_consecutive_empty_pages ?loc1 + m"
    and p2: "pp_current_page loc2 = pp_current_page ?loc1 + int m"
    by blast
  have "pl_category_loop pages category_id category_name loc s
          = pl_category_loop pages category_id category_name ?loc1 ?s1"
    using it cond Suc.prems(1) by (subst pl_category_loop.simps) simp
  with run have "pl_category_loop pages category_id category_name loc s
          = pl_category_loop pages category_id category_name loc2
              (s\<lparr>requests_made := requests_made s + Suc m\<rparr>)"
    by simp
  moreover have "pp_consecutive_empty_pages loc2 = pp_consecutive_empty_pages loc + Suc m"
    using c2 by simp
  moreover have "pp_current_page loc2 = pp_current_page loc + int (Suc m)"
    using p2 by simp
  ultimately show ?case by blast
qed

lemma pl_loop_reset_run:
  assumes sh: "\<not> pl_shutdown_requested s" and nolimit: "pl_max_products_limit s = None"
    and pfl: "pl_products_file s \<noteq> Undecodable"
    and c: "pp_consecutive_empty_pages loc + j < pl_max_empty_pages"
    and pb: "pp_current_page loc + int j + 1 + int pl_max_empty_pages \<le> pl_max_pages + 1"
    and first: "\<forall>i<j. fst (pages (requests_made s + i)) = []"
    and pg: "pages (requests_made s + j) = (ps, True, total_pages)" and ne: "ps \<noteq> []"
    and last: "\<forall>i<pl_max_empty_pages. fst (pages (requests_made s + j + 1 + i)) = []"
  shows "\<exists>loc' s'. pl_category_loop pages category_id category_name loc s = (loc', s')
      \<and> requests_made s' = requests_made s + j + 1 + pl_max_empty_pages
      \<and> pp_consecutive_empty_pages loc' = pl_max_empty_pages"
proof -
  let ?s1 = "s\<lparr>requests_made := requests_made s + j\<rparr>"
  have c': "pp_consecutive_empty_pages loc + j \<le> pl_max_empty_pages" using c by simp
  have pb': "pp_current_page loc + int j \<le> pl_max_pages + 1" using pb by simp
  from pl_loop_unroll_empties [OF sh nolimit c' pb' first, of category_id category_name]
  obtain loc1 where run1: "pl_category_loop pages category_id category_name loc s
               = pl_category_loop pages category_id category_name loc1 ?s1"
    and c1: "pp_consecutive_empty_pages loc1 = pp_consecutive_empty_pages loc + j"
    and p1: "pp_current_page loc1 = pp_current_page loc + int j"
    by blast
  have pg1: "pages (requests_made ?s1) = (ps, True, total_pages)" using pg by simp
  have nl1: "pl_max_products_limit ?s1 = None" using nolimit by simp
  have pfl1: "pl_products_file ?s1 \<noteq> Undecodable" using pfl by simp
  have sh1: "\<not> pl_shutdown_requested ?s1" using sh by simp
  from pl_iteration_nonempty_page
         [where pages = pages and s = ?s1 and loc = loc1 and category_id = category_id
            and category_name = category_name, OF pg1 ne nl1 pfl1]
  obtain loc2 s2 where it: "pl_iteration pages category_id category_name loc1 ?s1 = (Continue loc2, s2)"
    and c2: "pp_consecutive_empty_pages loc2 = 0"
    and p2: "pp_current_page loc2 = pp_current_page loc1 + 1"
    and rm2: "requests_made s2 = Suc (requests_made ?s1)"
    and sh2: "pl_shutdown_requested s2 = pl_shutdown_requested ?s1"
    and nl2: "pl_max_products_limit s2 = None"
    by blast
  have guard: "pp_consecutive_empty_pages loc1 < pl_max_empty_pages"
      "pp_current_page loc1 \<le> pl_max_pages"
    using c c1 pb p1 by simp_all
  have run2: "pl_category_loop pages category_id category_name loc1 ?s1
                = pl_category_loop pages category_id category_name loc2 s2"
    using it guard sh1 by (subst pl_category_loop.simps) simp
  have sh2': "\<not> pl_shutdown_requested s2" using sh2 sh by simp
  have nlr2: "\<not> pl_limit_reached s2" using nl2 by (simp add: pl_limit_reached_def)
  have cnt: "pp_consecutive_empty_pages loc2 + pl_max_empty_pages = 3"
    using c2 by (simp add: pl_max_empty_pages_def)
  have pgb: "pp_current_page loc2 + int pl_max_empty_pages \<le> 201"
    using p2 p1 pb by (simp add: pl_max_pages_def)
  have later: "\<forall>i<pl_max_empty_pages. fst (pages (requests_made s2 + i)) = []"
  proof (intro allI impI)
    fix i assume "i < pl_max_empty_pages"
    with last have "fst (pages (requests_made s + j + 1 + i)) = []" by blast
    then show "fst (pages (requests_made s2 + i)) = []" by (simp add: rm2)
  qed
  from pl_loop_empty_run [OF sh2' nlr2 cnt pgb later, of category_id category_name]
  obtain loc' s' where "pl_category_loop pages category_id category_name loc2 s2 = (loc', s')"
    and "requests_made s' = requests_made s2 + pl_max_empty_pages"
    and "pp_consecutive_empty_pages loc' = 3"
    by blast
  with run1 run2 rm2 show ?thesis by (simp add: pl_max_empty_pages_def)
qed

text \<open>
  C5 (as the code has it). A category loop stops once the page fetch has come back
  empty a fixed number \<open>N\<close> of times in a row, and not before; \<open>N\<close> is 3 in the
  Kruidvat and Plus loops and 5 in the Jumbo loop, and the AH loop stops at the first
  empty page. For each of the three counting loops two facts are stated.
  \<^item> From a point where the counter stands at \<open>c\<close>, if the next \<open>N - c\<close> fetches come
    back empty the loop ends after exactly that many further fetches.
  \<^item> The count is of empty pages in a row: if fewer than \<open>N - c\<close> empty pages are
    followed by a page with products, that page sets the counter back to zero, and the
    loop then ends only after \<open>N\<close> further empty pages, whatever \<open>c\<close> was. (Here no
    product limit is set and the product store can be read, so that the page with
    products is saved and the loop goes on.)

  Kruidvat: the pages carry no page count. Plus: the page number stays within the 200
  pages the loop allows, the product limit is not reached, and the page with products
  says that more pages follow.
\<close>

theorem empty_page_tolerance:
  "(kl_consecutive_empty_pages kloc + m_k = 3 \<longrightarrow>
      (\<forall>i<m_k. fetch (requests_made ks + i) = kv_empty_page) \<longrightarrow> m_k \<le> fuel_k \<longrightarrow>
      (\<exists>loc' s'. kv_category_loop fetch fuel_k kloc ks = Some (loc', s')
          \<and> requests_made s' = requests_made ks + m_k
          \<and> kl_consecutive_empty_pages loc' = 3))
   \<and> (kv_max_products_limit ks = None \<longrightarrow> kv_products_file ks \<noteq> Undecodable \<longrightarrow>
      kl_consecutive_empty_pages kloc + j_k < 3 \<longrightarrow>
      (\<forall>i<j_k. fetch (requests_made ks + i) = kv_empty_page) \<longrightarrow>
      fetch (requests_made ks + j_k) = kv_page kps \<longrightarrow> kps \<noteq> [] \<longrightarrow>
      (\<forall>i<3. fetch (requests_made ks + j_k + 1 + i) = kv_empty_page) \<longrightarrow>
      j_k + 1 + 3 \<le> fuel_k \<longrightarrow>
      (\<exists>loc' s'. kv_category_loop fetch fuel_k kloc ks = Some (loc', s')
          \<and> requests_made s' = requests_made ks + j_k + 1 + 3
          \<and> kl_consecutive_empty_pages loc' = 3))
   \<and> (\<not> pl_shutdown_requested pls \<longrightarrow> \<not> pl_limit_reached pls \<longrightarrow>
      pp_consecutive_empty_pages ploc + m_p = 3 \<longrightarrow> pp_current_page ploc + int m_p \<le> 201 \<longrightarrow>
      (\<forall>i<m_p. fst (pages (requests_made pls + i)) = []) \<longrightarrow>
      (\<exists>loc' s'. pl_category_loop pages category_id category_name ploc pls = (loc', s')
          \<and> requests_made s' = requests_made pls + m_p
          \<and> pp_consecutive_empty_pages loc' = 3))
   \<and> (\<not> pl_shutdown_requested pls \<longrightarrow> pl_max_products_limit pls = None \<longrightarrow>
      pl_products_file pls \<noteq> Undecodable \<longrightarrow>
      pp_consecutive_empty_pages ploc + j_p < 3 \<longrightarrow>
      pp_current_page ploc + int j_p + 1 + 3 \<le> 201 \<longrightarrow>
      (\<forall>i<j_p. fst (pages (requests_made pls + i)) = []) \<longrightarrow>
      pages (requests_made pls + j_p) = (pps, True, total_pages) \<longrightarrow> pps \<noteq> [] \<longrightarrow>
      (\<forall>i<3. fst (pages (requests_made pls + j_p + 1 + i)) = []) \<longrightarrow>
      (\<exists>loc' s'. pl_category_loop pages category_id category_name ploc pls = (loc', s')
          \<and> requests_made s' = requests_made pls + j_p + 1 + 3
          \<and> pp_consecutive_empty_pages loc' = 3))
   \<and> (\<not> jm_shutdown_requested js \<longrightarrow> 0 < jm_max_retries js \<longrightarrow>
      lp_consecutive_empty_pages jloc + m_j = 5 \<longrightarrow>
      (\<forall>i<m_j. net_j (requests_made js + i) = jm_page []) \<longrightarrow> m_j \<le> fuel_j \<longrightarrow>
      (\<exists>loc' s'. jm_category_loop net_j fuel_j category_name jloc js = Some (Inr loc', s')
          \<and> requests_made s' = requests_made js + m_j
          \<and> lp_consecutive_empty_pages loc' = 5))
   \<and> (\<not> jm_shutdown_requested js \<longrightarrow> 0 < jm_max_retries js \<longrightarrow>
      jm_max_products js = None \<longrightarrow> jm_products_file js \<noteq> Undecodable \<longrightarrow>
      lp_consecutive_empty_pages jloc + j_j < 5 \<longrightarrow>
      (\<forall>i<j_j. net_j (requests_made js + i) = jm_page []) \<longrightarrow>
      net_j (requests_made js + j_j) = jm_page jps \<longrightarrow> jps \<noteq> [] \<longrightarrow>
      (\<forall>i<5. net_j (requests_made js + j_j + 1 + i) = jm_page []) \<longrightarrow>
      j_j + 1 + 5 \<le> fuel_j \<longrightarrow>
      (\<exists>loc' s'. jm_category_loop net_j fuel_j category_name jloc js = Some (Inr loc', s')
          \<and> requests_made s' = requests_made js + j_j + 1 + 5
          \<and> lp_consecutive_empty_pages loc' = 5))
   \<and> (\<not> ah_shutdown_requested a \<longrightarrow> \<not> ah_limit_reached a \<longrightarrow> 0 < ah_max_retries a \<longrightarrow>
      net_a (requests_made a) = Response 200 (Some (Search_json [])) \<longrightarrow>
      (\<exists>s1. ah_scrape_category_products net_a (Suc fuel_a) page category_products a
               = Some (category_products, s1)
          \<and> requests_made s1 = Suc (requests_made a)))"
proof -
  have k1: "kl_consecutive_empty_pages kloc + m_k = 3 \<longrightarrow>
      (\<forall>i<m_k. fetch (requests_made ks + i) = kv_empty_page) \<longrightarrow> m_k \<le> fuel_k \<longrightarrow>
      (\<exists>loc' s'. kv_category_loop fetch fuel_k kloc ks = Some (loc', s')
          \<and> requests_made s' = requests_made ks + m_k
          \<and> kl_consecutive_empty_pages loc' = 3)"
    using kv_loop_empty_run [of kloc m_k fetch ks fuel_k] by (intro impI) assumption
  have k2: "kv_max_products_limit ks = None \<longrightarrow> kv_products_file ks \<noteq> Undecodable \<longrightarrow>
      kl_consecutive_empty_pages kloc + j_k < 3 \<longrightarrow>
      (\<forall>i<j_k. fetch (requests_made ks + i) = kv_empty_page) \<longrightarrow>
      fetch (requests_made ks + j_k) = kv_page kps \<longrightarrow> kps \<noteq> [] \<longrightarrow>
      (\<forall>i<3. fetch (requests_made ks + j_k + 1 + i) = kv_empty_page) \<longrightarrow>
      j_k + 1 + 3 \<le> fuel_k \<longrightarrow>
      (\<exists>loc' s'. kv_category_loop fetch fuel_k kloc ks = Some (loc', s')
          \<and> requests_made s' = requests_made ks + j_k + 1 + 3
          \<and> kl_consecutive_empty_pages loc' = 3)"
    using kv_loop_reset_run [where s = ks and loc = kloc and j = j_k and fetch = fetch
                               and ps = kps and fuel = fuel_k]
    by (simp add: kv_max_empty_pages_def)
  have p1: "\<not> pl_shutdown_requested pls \<longrightarrow> \<not> pl_limit_reached pls \<longrightarrow>
      pp_consecutive_empty_pages ploc + m_p = 3 \<longrightarrow> pp_current_page ploc + int m_p \<le> 201 \<longrightarrow>
      (\<forall>i<m_p. fst (pages (requests_made pls + i)) = []) \<longrightarrow>
      (\<exists>loc' s'. pl_category_loop pages category_id category_name ploc pls = (loc', s')
          \<and> requests_made s' = requests_made pls + m_p
          \<and> pp_consecutive_empty_pages loc' = 3)"
    using pl_loop_empty_run [of pls ploc m_p pages category_id category_name]
    by (intro impI) assumption
  have p2: "\<not> pl_shutdown_requested pls \<longrightarrow> pl_max_products_limit pls = None \<longrightarrow>
      pl_products_file pls \<noteq> Undecodable \<longrightarrow>
      pp_consecutive_empty_pages ploc + j_p < 3 \<longrightarrow>
      pp_current_page ploc + int j_p + 1 + 3 \<le> 201 \<longrightarrow>
      (\<forall>i<j_p. fst (pages (requests_made pls + i)) = []) \<longrightarrow>
      pages (requests_made pls + j_p) = (pps, True, total_pages) \<longrightarrow> pps \<noteq> [] \<longrightarrow>
      (\<forall>i<3. fst (pages (requests_made pls + j_p + 1 + i)) = []) \<longrightarrow>
      (\<exists>loc' s'. pl_category_loop pages category_id category_name ploc pls = (loc', s')
          \<and> requests_made s' = requests_made pls + j_p + 1 + 3
          \<and> pp_consecutive_empty_pages loc' = 3)"
    using pl_loop_reset_run [where s = pls and loc = ploc and j = j_p and pages = pages
                               and ps = pps and total_pages = total_pages
                               and category_id = category_id and category_name = category_name]
    by (simp add: pl_max_empty_pages_def pl_max_pages_def del: pl_category_loop.simps)
  have j1: "\<not> jm_shutdown_requested js \<longrightarrow> 0 < jm_max_retries js \<longrightarrow>
      lp_consecutive_empty_pages jloc + m_j = 5 \<longrightarrow>
      (\<forall>i<m_j. net_j (requests_made js + i) = jm_page []) \<longrightarrow> m_j \<le> fuel_j \<longrightarrow>
      (\<exists>loc' s'. jm_category_loop net_j fuel_j category_name jloc js = Some (Inr loc', s')
          \<and> requests_made s' = requests_made js + m_j
          \<and> lp_consecutive_empty_pages loc' = 5)"
    using jm_loop_empty_run [of js jloc m_j net_j fuel_j category_name]
    by (simp add: jm_max_empty_pages_def)
  have j2: "\<not> jm_shutdown_requested js \<longrightarrow> 0 < jm_max_retries js \<longrightarrow>
      jm_max_products js = None \<longrightarrow> jm_products_file js \<noteq> Undecodable \<longrightarrow>
      lp_consecutive_empty_pages jloc + j_j < 5 \<longrightarrow>
      (\<forall>i<j_j. net_j (requests_made js + i) = jm_page []) \<longrightarrow>
      net_j (requests_made js + j_j) = jm_page jps \<longrightarrow> jps \<noteq> [] \<longrightarrow>
      (\<forall>i<5. net_j (requests_made js + j_j + 1 + i) = jm_page []) \<longrightarrow>
      j_j + 1 + 5 \<le> fuel_j \<longrightarrow>
      (\<exists>loc' s'. jm_category_loop net_j fuel_j category_name jloc js = Some (Inr loc', s')
          \<and> requests_made s' = requests_made js + j_j + 1 + 5
          \<and> lp_consecutive_empty_pages loc' = 5)"
    using jm_loop_reset_run [where s = js and loc = jloc and j = j_j and net = net_j
                               and ps = jps and fuel = fuel_j and category_name = category_name]
    by (simp add: jm_max_empty_pages_def)
  have a1: "\<not> ah_shutdown_requested a \<longrightarrow> \<not> ah_limit_reached a \<longrightarrow> 0 < ah_max_retries a \<longrightarrow>
      net_a (requests_made a) = Response 200 (Some (Search_json [])) \<longrightarrow>
      (\<exists>s1. ah_scrape_category_products net_a (Suc fuel_a) page category_products a
               = Some (category_products, s1)
          \<and> requests_made s1 = Suc (requests_made a))"
    using ah_first_empty_page [of a net_a fuel_a page category_products]
    by (intro impI) assumption
  from k1 k2 p1 p2 j1 j2 a1 show ?thesis by (intro conjI)
qed

theorem empty_page_tolerance_witness:
  "(\<exists>loc' s'. kv_category_loop (\<lambda>k. kv_empty_page) 3 kv_loop_start kv_blank = Some (loc', s')
        \<and> requests_made s' = 3 \<and> kl_consecutive_empty_pages loc' = 3)
   \<and> (\<exists>loc' s'. kv_category_loop (kv_one_page_at 2 [kv_item 1]) 6 kv_loop_start kv_blank
                   = Some (loc', s')
        \<and> requests_made s' = 6 \<and> kl_consecutive_empty_pages loc' = 3)
   \<and> (\<exists>loc' s'. pl_category_loop (\<lambda>k. ([], False, 1)) ''bbq'' ''bbq'' pl_loop_start pl_blank = (loc', s')
        \<and> requests_made s' = 3 \<and> pp_consecutive_empty_pages loc' = 3)
   \<and> (\<exists>loc' s'. pl_category_loop (pl_one_page_at 2 [pl_item 1]) ''bbq'' ''bbq'' pl_loop_start
                   pl_blank = (loc', s')
        \<and> requests_made s' = 6 \<and> pp_consecutive_empty_pages loc' = 3)
   \<and> (\<exists>loc' s'. jm_category_loop (\<lambda>k. jm_page []) 5 ''BBQ'' jm_loop_start jm_blank = Some (Inr loc', s')
        \<and> requests_made s' = 5 \<and> lp_consecutive_empty_pages loc' = 5)
   \<and> (\<exists>loc' s'. jm_category_loop (jm_one_page_at 4 [jm_item 1]) 10 ''BBQ'' jm_loop_start jm_blank
                   = Some (Inr loc', s')
        \<and> requests_made s' = 10 \<and> lp_consecutive_empty_pages loc' = 5)
   \<and> (\<exists>s1. ah_scrape_category_products (\<lambda>k. Response 200 (Some (Search_json []))) 1 0 [] ah_blank
             = Some ([], s1)
        \<and> requests_made s1 = 1)"
proof -
  have 1: "\<exists>loc' s'. kv_category_loop (\<lambda>k. kv_empty_page) 3 kv_loop_start kv_blank = Some (loc', s')
        \<and> requests_made s' = 3 \<and> kl_consecutive_empty_pages loc' = 3"
    using empty_page_tolerance
            [where kloc = kv_loop_start and m_k = 3 and fetch = "\<lambda>k. kv_empty_page"
               and ks = kv_blank and fuel_k = 3, THEN conjunct1]
    by (simp add: kv_loop_start_def kv_blank_def)
  have 2: "\<exists>loc' s'. kv_category_loop (kv_one_page_at 2 [kv_item 1]) 6 kv_loop_start kv_blank
                   = Some (loc', s')
        \<and> requests_made s' = 6 \<and> kl_consecutive_empty_pages loc' = 3"
    using empty_page_tolerance
            [where kloc = kv_loop_start and j_k = 2 and fetch = "kv_one_page_at 2 [kv_item 1]"
               and kps = "[kv_item 1]" and ks = kv_blank and fuel_k = 6,
             THEN conjunct2, THEN conjunct1]
    by (simp add: kv_loop_start_def kv_blank_def kv_one_page_at_def)
  have 3: "\<exists>loc' s'. pl_category_loop (\<lambda>k. ([], False, 1)) ''bbq'' ''bbq'' pl_loop_start pl_blank
                   = (loc', s')
        \<and> requests_made s' = 3 \<and> pp_consecutive_empty_pages loc' = 3"
    using empty_page_tolerance
            [where pls = pl_blank and ploc = pl_loop_start and m_p = 3
               and pages = "\<lambda>k. ([], False, 1)" and category_id = "''bbq''"
               and category_name = "''bbq''",
             THEN conjunct2, THEN conjunct2, THEN conjunct1]
    by (simp add: pl_blank_def pl_loop_start_def pl_limit_reached_def
             del: pl_category_loop.simps)
  have 4: "\<exists>loc' s'. pl_category_loop (pl_one_page_at 2 [pl_item 1]) ''bbq'' ''bbq'' pl_loop_start
                   pl_blank = (loc', s')
        \<and> requests_made s' = 6 \<and> pp_consecutive_empty_pages loc' = 3"
    using empty_page_tolerance
            [where pls = pl_blank and ploc = pl_loop_start and j_p = 2
               and pages = "pl_one_page_at 2 [pl_item 1]" and pps = "[pl_item 1]"
               and total_pages = 200 and category_id = "''bbq''" and category_name = "''bbq''",
             THEN conjunct2, THEN conjunct2, THEN conjunct2, THEN conjunct1]
    by (simp add: pl_blank_def pl_loop_start_def pl_one_page_at_def
             del: pl_category_loop.simps)
  have 5: "\<exists>loc' s'. jm_category_loop (\<lambda>k. jm_page []) 5 ''BBQ'' jm_loop_start jm_blank
                   = Some (Inr loc', s')
        \<and> requests_made s' = 5 \<and> lp_consecutive_empty_pages loc' = 5"
    using empty_page_tolerance
            [where js = jm_blank and jloc = jm_loop_start and m_j = 5
               and net_j = "\<lambda>k. jm_page []" and fuel_j = 5 and category_name = "''BBQ''",
             THEN conjunct2, THEN conjunct2, THEN conjunct2, THEN conjunct2, THEN conjunct1]
    by (simp add: jm_blank_def jm_loop_start_def)
  have 6: "\<exists>loc' s'. jm_category_loop (jm_one_page_at 4 [jm_item 1]) 10 ''BBQ'' jm_loop_start jm_blank
                   = Some (Inr loc', s')
        \<and> requests_made s' = 10 \<and> lp_consecutive_empty_pages loc' = 5"
    using empty_page_tolerance
            [where js = jm_blank and jloc = jm_loop_start and j_j = 4
               and net_j = "jm_one_page_at 4 [jm_item 1]" and jps = "[jm_item 1]"
               and fuel_j = 10 and category_name = "''BBQ''",
             THEN conjunct2, THEN conjunct2, THEN conjunct2, THEN conjunct2, THEN conjunct2,
             THEN conjunct1]
    by (simp add: jm_blank_def jm_loop_start_def jm_one_page_at_def)
  have 7: "\<exists>s1. ah_scrape_category_products (\<lambda>k. Response 200 (Some (Search_json []))) 1 0 []
                ah_blank = Some ([], s1)
        \<and> requests_made s1 = 1"
    using empty_page_tolerance
            [where a = ah_blank and net_a = "\<lambda>k. Response 200 (Some (Search_json []))"
               and fuel_a = 0 and page = 0 and category_products = "[]",
             THEN conjunct2, THEN conjunct2, THEN conjunct2, THEN conjunct2, THEN conjunct2,
             THEN conjunct2]
    by (simp add: ah_blank_def ah_limit_reached_def del: ah_scrape_category_products.simps)
  from 1 2 3 4 5 6 7 show ?thesis by (intro conjI)
qed

text \<open>
  The claim as written fails for the Jumbo loop: after three empty pages in a row it is
  still running, and it ends only after the fifth.
\<close>

theorem jumbo_tolerates_five_empty_pages_counterexample:
  "jm_category_loop (always (jm_page [])) 3 ''BBQ'' jm_loop_start jm_blank = None
   \<and> map_option (requests_made \<circ> snd)
        (jm_category_loop (always (jm_page [])) 5 ''BBQ'' jm_loop_start jm_blank) = Some 5"
  using jm_loop_still_running [of jm_blank jm_loop_start 3 "always (jm_page [])" "''BBQ''"]
        jm_loop_empty_run [of jm_blank jm_loop_start 5 "always (jm_page [])" 5 "''BBQ''"]
  by (auto simp: jm_blank_def jm_loop_start_def jm_max_empty_pages_def always_def)

section \<open>The product limit\<close>

text \<open>
  C2. The Jumbo loop checks \<open>max_products\<close> only after a whole page has been saved and
  counted. With \<open>max_products = 2\<close> and a first page of three new products the category
  ends with three products counted and three records in the products file.
\<close>

theorem jumbo_counts_past_the_limit:
  "map_option (\<lambda>(r, s). (r, jm_total_scraped s, jm_store_ids s))
     (jm_scrape_category (always (jm_page [jm_item 1, jm_item 2, jm_item 3])) 1 ''BBQ''
        (jm_blank\<lparr>jm_max_products := Some 2\<rparr>))
     = Some (Inr 3, 3, [PInt 1, PInt 2, PInt 3])"
  by (simp add: jm_scrape_category_def jm_iteration_def jm_make_graphql_request_def jm_blank_def
                jm_page_def send_def Let_def upt_conv_Cons jm_item_def jm_save_products_def
                path_exists_def jm_limit_reached_def jm_max_empty_pages_def always_def
                jm_save_progress_def jm_store_ids_def)

text \<open>
  The AH and Kruidvat loops check the limit as each product is counted: a counter within
  the limit stays within it, and the products collected are exactly those counted.
\<close>

lemma ah_attempt_frame: "ah_request_frame s (snd (ah_attempt net a s))"
  by (cases "net (requests_made s)"; cases "a > 0")
     (auto simp: ah_attempt_def send_def sleep_for_def log_def Let_def ah_handle_response_def
                 ah_request_frame_def
           split: py_exn.splits option.splits)

lemma ah_request_frame_trans:
  "ah_request_frame s s1 \<Longrightarrow> ah_request_frame s1 s2 \<Longrightarrow> ah_request_frame s s2"
  by (simp add: ah_request_frame_def)

lemma ah_attempts_frame: "ah_request_frame s (snd (ah_attempts net as s))"
proof (induction as arbitrary: s)
  case Nil
  then show ?case by (simp add: ah_request_frame_def)
next
  case (Cons a as)
  obtain r s4 where att: "ah_attempt net a s = (r, s4)" by (cases "ah_attempt net a s")
  then have f: "ah_request_frame s s4"
    using ah_attempt_frame [of s net a] by simp
  show ?case
  proof (cases r)
    case (Inr data)
    with att f show ?thesis by simp
  next
    case (Inl e)
    have "ah_request_frame s (snd (ah_attempts net as s4))"
      using f Cons.IH [of s4] by (rule ah_request_frame_trans)
    with att Inl f show ?thesis by simp
  qed
qed

lemma ah_make_request_frame: "ah_request_frame s (snd (ah_make_request_with_retry net s))"
  by (simp add: ah_make_request_with_retry_def ah_attempts_frame)

lemma ah_collect_within_limit:
  "ah_within_limit M s \<Longrightarrow> ah_total_scraped_items s < M \<Longrightarrow> 0 < M \<Longrightarrow>
   ah_collect products (s, cps, n) = (s', cps', n') \<Longrightarrow>
   ah_within_limit M s' \<and> ah_shutdown_requested s' = ah_shutdown_requested s
     \<and> int (length cps') - int (length cps) = ah_total_scraped_items s' - ah_total_scraped_items s"
proof (induction products arbitrary: s cps n)
  case Nil
  then show ?case by simp
next
  case (Cons p ps)
  show ?case
  proof (cases "truthy (webshopId p) \<and> webshopId p \<notin> set (ah_scraped_product_ids s)")
    case False
    with Cons.prems have "ah_collect ps (s, cps, n) = (s', cps', n')" by auto
    from Cons.IH [OF Cons.prems(1,2,3) this] show ?thesis .
  next
    case True
    let ?s1 = "s\<lparr>ah_scraped_product_ids := List.insert (webshopId p) (ah_scraped_product_ids s),
                   ah_total_scraped_items := ah_total_scraped_items s + 1\<rparr>"
    have w1: "ah_within_limit M ?s1"
      using Cons.prems(1,2) by (simp add: ah_within_limit_def)
    show ?thesis
    proof (cases "ah_limit_reached ?s1")
      case reached: True
      with True Cons.prems(4) have "s' = ?s1" "cps' = cps @ [p]"
        by (simp_all add: Let_def)
      with w1 show ?thesis by simp
    next
      case notyet: False
      with True Cons.prems(4)
      have rec: "ah_collect ps (?s1, cps @ [p], Suc n) = (s', cps', n')"
        by (simp add: Let_def)
      have lt: "ah_total_scraped_items ?s1 < M"
        using notyet w1 Cons.prems(2,3)
        by (auto simp: ah_limit_reached_def ah_within_limit_def)
      from Cons.IH [OF w1 lt Cons.prems(3) rec] show ?thesis by simp
    qed
  qed
qed

lemma ah_category_within_limit:
  "ah_within_limit M s \<Longrightarrow> 0 < M \<Longrightarrow>
   ah_scrape_category_products net fuel page cps s = Some (cps', s') \<Longrightarrow>
   ah_within_limit M s'
     \<and> int (length cps') - int (length cps) = ah_total_scraped_items s' - ah_total_scraped_items s"
proof (induction fuel arbitrary: page cps s)
  case 0
  then show ?case by (auto split: if_splits)
next
  case (Suc fuel)
  show ?case
  proof (cases "ah_shutdown_requested s \<or> ah_limit_reached s")
    case True
    with Suc.prems show ?thesis by (auto split: if_splits)
  next
    case False
    then have lt: "ah_total_scraped_items s < M"
      using Suc.prems(1,2) by (auto simp: ah_limit_reached_def ah_within_limit_def)
    obtain r s1 where req: "ah_make_request_with_retry net s = (r, s1)"
      by (cases "ah_make_request_with_retry net s")
    then have fr: "ah_request_frame s s1"
      using ah_make_request_frame [of s net] by simp
    then have w1: "ah_within_limit M s1" and lt1: "ah_total_scraped_items s1 < M"
      and t1: "ah_total_scraped_items s1 = ah_total_scraped_items s"
      using Suc.prems(1) lt by (simp_all add: ah_request_frame_def ah_within_limit_def)
    have keep: "ah_within_limit M (log lvl m s1)"
         "ah_total_scraped_items (log lvl m s1) = ah_total_scraped_items s" for lvl m
      using w1 t1 by (simp_all add: log_def ah_within_limit_def)
    show ?thesis
    proof (cases r)
      case (Inl e)
      with Suc.prems(3) False req keep show ?thesis by auto
    next
      case (Inr data)
      show ?thesis
      proof (cases "\<exists>products. data = Some (Search_json products) \<and> products \<noteq> []")
        case nopage: False
        have "s' = s1 \<or> (\<exists>lvl m. s' = log lvl m s1)" and "cps' = cps"
          using Suc.prems(3) False req Inr nopage
          by (auto split: option.splits ah_json.splits if_splits)
        with w1 t1 keep show ?thesis by auto
      next
        case True
        then obtain products where d: "data = Some (Search_json products)" "products \<noteq> []"
          by blast
        obtain s2 cps2 n2 where col: "ah_collect products (s1, cps, 0) = (s2, cps2, n2)"
          by (cases "ah_collect products (s1, cps, 0)")
        from ah_collect_within_limit [OF w1 lt1 Suc.prems(2) col]
        have w2: "ah_within_limit M s2"
          and len: "int (length cps2) - int (length cps)
                      = ah_total_scraped_items s2 - ah_total_scraped_items s"
          using t1 by simp_all
        show ?thesis
        proof (cases "length products < ah_page_size")
          case short: True
          with Suc.prems(3) False req Inr d col have "s' = s2" "cps' = cps2" by simp_all
          with w2 len show ?thesis by simp
        next
          case full: False
          with Suc.prems(3) False req Inr d col
          have rec: "ah_scrape_category_products net fuel (Suc page) cps2 (sleep_for Pace s2)
                       = Some (cps', s')"
            by simp
          have w3: "ah_within_limit M (sleep_for Pace s2)"
            using w2 by (simp add: sleep_for_def ah_within_limit_def)
          from Suc.IH [OF w3 Suc.prems(2) rec] len show ?thesis
            by (simp add: sleep_for_def)
        qed
      qed
    qed
  qed
qed

lemma kv_collect_within_limit:
  "kv_within_limit M s \<Longrightarrow> 0 < M \<Longrightarrow>
   kv_collect products (s, detailed, t) = (returned, s', detailed', t') \<Longrightarrow>
   kv_within_limit M s'
     \<and> int (length detailed') - int (length detailed) = kv_total_scraped s' - kv_total_scraped s"
proof (induction products arbitrary: s detailed t)
  case Nil
  then show ?case by simp
next
  case (Cons p ps)
  show ?case
  proof (cases "kv_limit_reached s")
    case True
    with Cons.prems show ?thesis by simp
  next
    case running: False
    then have lt: "kv_total_scraped s < M"
      using Cons.prems(1,2) by (auto simp: kv_limit_reached_def kv_within_limit_def)
    show ?thesis
    proof (cases "truthy (kv_item_id p) \<and> kv_item_id p \<notin> set (kv_scraped_products s)")
      case False
      with running Cons.prems(3)
      have "kv_collect ps (s, detailed, t) = (returned, s', detailed', t')"
        by (auto simp: Let_def)
      from Cons.IH [OF Cons.prems(1,2) this] show ?thesis .
    next
      case True
      let ?s1 = "s\<lparr>kv_scraped_products := List.insert (kv_item_id p) (kv_scraped_products s),
                     kv_total_scraped := kv_total_scraped s + 1\<rparr>"
      have w1: "kv_within_limit M ?s1"
        using Cons.prems(1) lt by (simp add: kv_within_limit_def)
      show ?thesis
      proof (cases "kv_limit_reached ?s1")
        case reached: True
        with True running Cons.prems(3)
        have "s' = ?s1" "detailed' = detailed @ [\<lparr>ke_product = p\<rparr>]"
          by (simp_all add: Let_def)
        with w1 show ?thesis by simp
      next
        case notyet: False
        with True running Cons.prems(3)
        have rec: "kv_collect ps (?s1, detailed @ [\<lparr>ke_product = p\<rparr>], t + 1)
                     = (returned, s', detailed', t')"
          by (simp add: Let_def)
        from Cons.IH [OF w1 Cons.prems(2) rec] show ?thesis by simp
      qed
    qed
  qed
qed

lemma kv_save_data_keeps_limit:
  "kv_within_limit M s \<Longrightarrow> kv_within_limit M (snd (kv_save_data d s))"
  by (cases "kv_products_file s")
     (simp_all add: kv_save_data_def kv_within_limit_def path_exists_def Let_def log_def)

lemma kv_try_body_within_limit:
  assumes w: "kv_within_limit M s" and M: "0 < M"
    and body: "kv_try_body fetch loc s = (r, s')"
  shows "kv_within_limit M s'"
proof -
  let ?s1 = "s\<lparr>requests_made := Suc (requests_made s)\<rparr>"
  have w1: "kv_within_limit M ?s1" using w by (simp add: kv_within_limit_def)
  have wl: "kv_within_limit M (log lvl m ?s1)" for lvl m
    using w1 by (simp add: kv_within_limit_def log_def)
  show ?thesis
  proof (cases "\<exists>products tp. fetch (requests_made s) = Inr (Some (Kv_search products tp))
                                \<and> products \<noteq> []")
    case False
    then have "s' = ?s1 \<or> (\<exists>lvl m. s' = log lvl m ?s1)"
      using body
      by (auto simp: kv_try_body_def kv_make_request_with_retry_def Let_def
               split: sum.splits option.splits kv_json.splits if_splits)
    with w1 wl show ?thesis by auto
  next
    case True
    then obtain products tp where f: "fetch (requests_made s) = Inr (Some (Kv_search products tp))"
      and ne: "products \<noteq> []" by blast
    obtain returned s2 detailed t2
      where col: "kv_collect products (?s1, [], kl_total_scraped loc) = (returned, s2, detailed, t2)"
      by (cases "kv_collect products (?s1, [], kl_total_scraped loc)") auto
    from kv_collect_within_limit [OF w1 M col] have w2: "kv_within_limit M s2" by simp
    have w3: "kv_within_limit M (snd (kv_save_data detailed s2))"
      using w2 by (rule kv_save_data_keeps_limit)
    have w4: "kv_within_limit M (kv_save_progress (snd (kv_save_data detailed s2)))"
      using w3 by (simp add: kv_within_limit_def kv_save_progress_def)
    have w5: "kv_within_limit M (sleep_for Pace st)" if "kv_within_limit M st" for st
      using that by (simp add: kv_within_limit_def sleep_for_def)
    have "s' = s2 \<or> s' = snd (kv_save_data detailed s2)
          \<or> s' = kv_save_progress (snd (kv_save_data detailed s2))
          \<or> s' = sleep_for Pace s2
          \<or> s' = sleep_for Pace (kv_save_progress (snd (kv_save_data detailed s2)))"
      using body f ne col
      by (cases "kv_save_data detailed s2")
         (auto simp: kv_try_body_def kv_make_request_with_retry_def Let_def
               split: sum.splits if_splits)
    with w2 w3 w4 w5 show ?thesis by auto
  qed
qed

lemma kv_iteration_within_limit:
  assumes "kv_within_limit M s" "0 < M" "kv_iteration fetch loc s = (st, s')"
  shows "kv_within_limit M s'"
proof -
  obtain r s1 where body: "kv_try_body fetch loc s = (r, s1)"
    by (cases "kv_try_body fetch loc s")
  from kv_try_body_within_limit [OF assms(1,2) body] have w1: "kv_within_limit M s1" .
  then have "kv_within_limit M (log lvl m s1)"
       "kv_within_limit M (sleep_for d (log lvl m s1))" for lvl m d
    by (simp_all add: kv_within_limit_def log_def sleep_for_def)
  with w1 body assms(3) show ?thesis
    by (cases r) (auto simp: kv_iteration_def Let_def split: if_splits prod.splits)
qed

lemma kv_category_within_limit:
  "kv_within_limit M s \<Longrightarrow> 0 < M \<Longrightarrow> kv_category_loop fetch fuel loc s = Some (loc', s') \<Longrightarrow>
   kv_within_limit M s'"
proof (induction fuel arbitrary: loc s)
  case 0
  then show ?case by (auto split: if_splits)
next
  case (Suc fuel)
  show ?case
  proof (cases "kl_consecutive_empty_pages loc < kv_max_empty_pages")
    case False
    with Suc.prems show ?thesis by simp
  next
    case True
    obtain st s1 where it: "kv_iteration fetch loc s = (st, s1)"
      by (cases "kv_iteration fetch loc s")
    from kv_iteration_within_limit [OF Suc.prems(1,2) it] have w1: "kv_within_limit M s1" .
    show ?thesis
    proof (cases st)
      case (Break loc1)
      with True it Suc.prems(3) w1 show ?thesis by simp
    next
      case (Continue loc1)
      with True it Suc.prems(3) have "kv_category_loop fetch fuel loc1 s1 = Some (loc', s')"
        by simp
      from Suc.IH [OF w1 Suc.prems(2) this] show ?thesis .
    qed
  qed
qed

text \<open>
  For a limit \<open>M > 0\<close> and a counter that starts within it, the AH and the Kruidvat
  category loops end with the counter within the limit.
\<close>

lemma ah_and_kruidvat_respect_the_limit:
  "0 < M \<Longrightarrow>
   (ah_within_limit M a \<longrightarrow>
      ah_scrape_category_products net fuel page cps a = Some (cps', a') \<longrightarrow>
      ah_total_scraped_items a' \<le> M
        \<and> int (length cps') - int (length cps) = ah_total_scraped_items a' - ah_total_scraped_items a)
   \<and> (kv_within_limit M k \<longrightarrow>
      kv_scrape_category_products fetch fuel_k k = Some (n, k') \<longrightarrow> kv_total_scraped k' \<le> M)"
  using ah_category_within_limit [of M a net fuel page cps cps' a']
        kv_category_within_limit [of M k fetch fuel_k kv_loop_start _ k']
  by (auto simp: ah_within_limit_def kv_within_limit_def kv_scrape_category_products_def
                 kv_loop_start_def
           split: option.splits)

end
